theory Spec2Isabelle
  imports Complex_Main "HOL-Library.Sublist" "HOL-Library.Multiset"
begin

section \<open>Session store: the bounded event log\<close>

text \<open>
  \<^verbatim>\<open>SessionStore.save(session, maxEvents?)\<close> (session-store.ts) trims the event log before
  it serialises the session:
  \<^verbatim>\<open>
    const limit = maxEvents || 200;
    if (session.events.length > limit) {
      const first = session.events[0];
      session.events = [first, ...session.events.slice(-(limit - 1))];
    }
  \<close>
  The cap is a count, so \<open>maxEvents\<close> is a natural number here; \<open>None\<close> is the omitted
  argument. \<open>maxEvents || 200\<close> takes the default for \<open>undefined\<close> and for \<open>0\<close>.
\<close>

definition save_limit :: "nat option \<Rightarrow> nat" where
  "save_limit maxEvents =
     (case maxEvents of None \<Rightarrow> 200 | Some m \<Rightarrow> (if m = 0 then 200 else m))"

text \<open>
  \<open>xs.slice(-k)\<close> for an integer \<open>k \<ge> 0\<close>: the start index is \<open>max (length - k) 0\<close> when
  \<open>k > 0\<close>, and \<open>-0\<close> is \<open>0\<close>, so \<open>slice(-0)\<close> is the whole array.
\<close>

definition slice_neg :: "'a list \<Rightarrow> nat \<Rightarrow> 'a list" where
  "slice_neg xs k = (if k = 0 then xs else drop (length xs - k) xs)"

text \<open>
  The trimming step of \<open>save\<close>. Inside the branch the list is longer than \<open>limit \<ge> 1\<close>, so
  \<open>events[0]\<close> exists; the empty case of the pattern match is never reached there.
\<close>

definition save_events :: "'e list \<Rightarrow> nat option \<Rightarrow> 'e list" where
  "save_events events maxEvents =
     (let limit = save_limit maxEvents in
      if length events > limit then
        (case events of
           [] \<Rightarrow> events
         | first # _ \<Rightarrow> first # slice_neg events (limit - 1))
      else events)"


section \<open>Context tracker: token estimation\<close>

text \<open>
  A JavaScript string is a sequence of UTF-16 code units; \<open>length\<close>, \<open>split\<close> and a regular
  expression without the \<open>u\<close> flag all work on code units. A code unit is a natural number
  below \<open>65536\<close>; every function below is defined on all naturals.
\<close>

type_synonym jsstring = "nat list"

definition utf16 :: "string \<Rightarrow> jsstring" where
  "utf16 s = map of_char s"

text \<open>The character classes of the regular expressions in \<open>estimateTokens\<close>.\<close>

definition is_space :: "nat \<Rightarrow> bool" where
  \<comment> \<open>\<open>\s\<close>: tab, LF, VT, FF, CR, space, U+00A0, U+1680, U+2000..U+200A, U+2028, U+2029,
      U+202F, U+205F, U+3000, U+FEFF\<close>
  "is_space c \<longleftrightarrow>
     (9 \<le> c \<and> c \<le> 13) \<or> c = 32 \<or> c = 160 \<or> c = 5760 \<or> (8192 \<le> c \<and> c \<le> 8202) \<or>
     c = 8232 \<or> c = 8233 \<or> c = 8239 \<or> c = 8287 \<or> c = 12288 \<or> c = 65279"

definition is_upper :: "nat \<Rightarrow> bool" where
  "is_upper c \<longleftrightarrow> 65 \<le> c \<and> c \<le> 90"

definition is_lower :: "nat \<Rightarrow> bool" where
  "is_lower c \<longleftrightarrow> 97 \<le> c \<and> c \<le> 122"

definition is_digit :: "nat \<Rightarrow> bool" where
  "is_digit c \<longleftrightarrow> 48 \<le> c \<and> c \<le> 57"

definition is_word :: "nat \<Rightarrow> bool" where
  \<comment> \<open>\<open>[a-zA-Z0-9_]\<close>\<close>
  "is_word c \<longleftrightarrow> is_lower c \<or> is_upper c \<or> is_digit c \<or> c = 95"

definition is_ascii :: "nat \<Rightarrow> bool" where
  \<comment> \<open>\<open>[\x00-\x7F]\<close>\<close>
  "is_ascii c \<longleftrightarrow> c \<le> 127"

text \<open>\<open>Math.ceil(n / d)\<close> on non-negative integers.\<close>

definition ceil_div :: "nat \<Rightarrow> nat \<Rightarrow> nat" where
  "ceil_div n d = (n + d - 1) div d"

text \<open>
  \<open>s.split(sep)\<close> for a one-character separator string: the pieces between the separators,
  empty pieces included.
\<close>

fun split_on :: "nat \<Rightarrow> jsstring \<Rightarrow> jsstring list" where
  "split_on sep [] = [[]]"
| "split_on sep (c # cs) =
     (if c = sep then [] # split_on sep cs
      else (case split_on sep cs of
              [] \<Rightarrow> [[c]]
            | p # ps \<Rightarrow> (c # p) # ps))"

text \<open>
  \<open>s.split(/([C])/)\<close> for a character class \<open>C\<close>: every character of the class separates,
  and the capture group puts each separator into the result as a piece of its own.
\<close>

fun split_keep_char :: "(nat \<Rightarrow> bool) \<Rightarrow> jsstring \<Rightarrow> jsstring list" where
  "split_keep_char P [] = [[]]"
| "split_keep_char P (c # cs) =
     (if P c then [] # [c] # split_keep_char P cs
      else (case split_keep_char P cs of
              [] \<Rightarrow> [[c]]
            | p # ps \<Rightarrow> (c # p) # ps))"

text \<open>
  \<open>s.split(/([C]+)/)\<close>: a maximal run of characters of the class separates, and the capture
  group puts the run into the result.
\<close>

function split_keep_run :: "(nat \<Rightarrow> bool) \<Rightarrow> jsstring \<Rightarrow> jsstring list" where
  "split_keep_run P [] = [[]]"
| "split_keep_run P (c # cs) =
     (if P c then [] # (c # takeWhile P cs) # split_keep_run P (dropWhile P cs)
      else (case split_keep_run P cs of
              [] \<Rightarrow> [[c]]
            | p # ps \<Rightarrow> (c # p) # ps))"
  by pat_completeness auto
termination
  by (relation "measure (\<lambda>(P, s). length s)") (auto simp: le_imp_less_Suc length_dropWhile_le)

text \<open>
  \<open>word.split(/(?=[A-Z][a-z])/)\<close>: the string is cut before every upper-case letter that a
  lower-case letter follows, except at position 0 (an empty match at the start of a piece
  is skipped by \<open>split\<close>).
\<close>

fun camel_boundary :: "jsstring \<Rightarrow> bool" where
  "camel_boundary (u # l # _) = (is_upper u \<and> is_lower l)"
| "camel_boundary _ = False"

fun camel_split :: "jsstring \<Rightarrow> jsstring list" where
  "camel_split [] = [[]]"
| "camel_split (c # cs) =
     (if camel_boundary cs then [c] # camel_split cs
      else (case camel_split cs of
              [] \<Rightarrow> [[c]]
            | p # ps \<Rightarrow> (c # p) # ps))"

text \<open>\<open>part.length <= 6 ? 1 : Math.ceil(part.length / 5)\<close>, the summand of both \<open>reduce\<close> calls.\<close>

definition subword_tokens :: "jsstring \<Rightarrow> nat" where
  "subword_tokens part = (if length part \<le> 6 then 1 else ceil_div (length part) 5)"

definition estimateWordTokens :: "jsstring \<Rightarrow> nat" where
  "estimateWordTokens word =
     (if word = [] then 0
      else let len = length word in
        if len \<le> 3 then 1
        else if len \<le> 6 then 1
        else let camelParts = filter (\<lambda>p. p \<noteq> []) (camel_split word) in
          if length camelParts > 1 then sum_list (map subword_tokens camelParts)
          else if 95 \<in> set word then
            sum_list (map subword_tokens (filter (\<lambda>p. p \<noteq> []) (split_on 95 word)))
          else if len \<le> 10 then 2
          else ceil_div len 5)"

text \<open>The body of the innermost loop of \<open>estimateTokens\<close>: what one \<open>part\<close> adds to \<open>tokens\<close>.\<close>

definition part_tokens :: "jsstring \<Rightarrow> nat" where
  "part_tokens part =
     (if part = [] then 0
      else if length part = 1 \<and> (\<exists>c \<in> set part. \<not> is_word c) then 1
      else if list_all is_digit part then max 1 (ceil_div (length part) 3)
      else let nonAsciiCount = length (filter (\<lambda>c. \<not> is_ascii c) part) in
        if nonAsciiCount > 0 then
          (let asciiPart = filter is_ascii part in
           nonAsciiCount * 2 + (if length asciiPart > 0 then estimateWordTokens asciiPart else 0))
        else estimateWordTokens part)"

text \<open>The body of the loop over \<open>segments\<close>.\<close>

definition segment_tokens :: "jsstring \<Rightarrow> nat" where
  "segment_tokens seg =
     (if seg = [] then 0
      else if list_all is_space seg then max 1 (ceil_div (length seg) 4)
      else sum_list (map part_tokens (split_keep_char (\<lambda>c. \<not> is_word c) seg)))"

text \<open>The body of the loop over \<open>lines\<close>.\<close>

definition line_tokens :: "jsstring \<Rightarrow> nat" where
  "line_tokens line = sum_list (map segment_tokens (split_keep_run is_space line))"

definition estimateTokens :: "jsstring \<Rightarrow> nat" where
  "estimateTokens text =
     (if text = [] then 0
      else let lines = split_on 10 text in
        (length lines - 1) + sum_list (map line_tokens lines))"


section \<open>Context tracker: brackets\<close>

text \<open>
  Field names of the TypeScript interfaces are kept where they are unique; the fields of
  \<open>PromptSection\<close>, \<open>SessionEvent\<close>, \<open>WorkflowPhase\<close>, \<open>RunnerResult\<close> and \<open>CrashInfo\<close>
  carry the prefixes \<open>sec_\<close>, \<open>ev_\<close>, \<open>ph_\<close>, \<open>res_\<close> and \<open>crash_\<close>.
\<close>

datatype ContextBracket = FRESH | MODERATE | DEPLETED | CRITICAL

record BracketConfig =
  bracket :: ContextBracket
  minPercent :: real
  maxPercent :: real
  tokenBudget :: nat
  includeSessionHistory :: bool
  includeArtifactIndex :: bool
  includeGotchas :: bool
  handoffWarning :: bool

definition BRACKET_CONFIGS :: "BracketConfig list" where
  "BRACKET_CONFIGS =
     [\<lparr>bracket = FRESH, minPercent = 60, maxPercent = 100, tokenBudget = 4000,
       includeSessionHistory = False, includeArtifactIndex = False,
       includeGotchas = False, handoffWarning = False\<rparr>,
      \<lparr>bracket = MODERATE, minPercent = 40, maxPercent = 60, tokenBudget = 6000,
       includeSessionHistory = True, includeArtifactIndex = True,
       includeGotchas = False, handoffWarning = False\<rparr>,
      \<lparr>bracket = DEPLETED, minPercent = 25, maxPercent = 40, tokenBudget = 8000,
       includeSessionHistory = True, includeArtifactIndex = True,
       includeGotchas = True, handoffWarning = False\<rparr>,
      \<lparr>bracket = CRITICAL, minPercent = 0, maxPercent = 25, tokenBudget = 10000,
       includeSessionHistory = True, includeArtifactIndex = True,
       includeGotchas = True, handoffWarning = True\<rparr>]"

definition DEFAULT_MAX_CONTEXT :: real where
  "DEFAULT_MAX_CONTEXT = 200000"

definition TOKENS_PER_ROUND :: real where
  "TOKENS_PER_ROUND = 3500"

text \<open>
  JavaScript numbers are taken as real numbers: the arithmetic of \<open>estimateContextPercent\<close>
  is exact here. \<open>maxContext\<close> is an optional argument; \<open>None\<close> is \<open>undefined\<close>, for which the
  default parameter value is used.
\<close>

definition estimateContextPercent :: "real \<Rightarrow> real option \<Rightarrow> real" where
  "estimateContextPercent promptCount maxContext =
     (let maxContext = (case maxContext of None \<Rightarrow> DEFAULT_MAX_CONTEXT | Some m \<Rightarrow> m);
          usedTokens = promptCount * TOKENS_PER_ROUND
      in max 0 (min 100 (100 - (usedTokens / maxContext) * 100)))"

text \<open>The test of the loop in \<open>getBracket\<close>.\<close>

definition in_bracket :: "real \<Rightarrow> BracketConfig \<Rightarrow> bool" where
  "in_bracket percent config \<longleftrightarrow> percent \<ge> minPercent config \<and> percent \<le> maxPercent config"

definition getBracket :: "real \<Rightarrow> real option \<Rightarrow> BracketConfig" where
  "getBracket promptCount maxContext =
     (let percent = estimateContextPercent promptCount maxContext in
      case find (in_bracket percent) (rev BRACKET_CONFIGS) of
        Some config \<Rightarrow> config
      | None \<Rightarrow> hd BRACKET_CONFIGS)"


section \<open>Context tracker: token budget enforcement\<close>

text \<open>
  A section's cost is a token count and its priority a value of \<open>SectionPriority\<close>
  (\<open>0\<close> to \<open>6\<close>), so both are natural numbers.
\<close>

record PromptSection =
  sec_name :: string
  sec_content :: string
  sec_priority :: nat
  sec_tokens :: nat

text \<open>
  \<open>enforceTokenBudget\<close> compares sections by object identity (\<open>s !== toRemove\<close>), so the
  array holds references of a type \<open>'r\<close> and \<open>heap\<close> maps a reference to the object it
  denotes. Two references may denote equal records, and one reference may occur twice in
  the array. \<open>Array.prototype.sort\<close> is stable, as \<open>sort_key\<close> is.
\<close>

fun budget_loop ::
  "('r \<Rightarrow> PromptSection) \<Rightarrow> int \<Rightarrow> 'r list \<Rightarrow> 'r list \<Rightarrow> int \<Rightarrow> 'r list" where
  "budget_loop heap budget [] remaining currentTokens = remaining"
| "budget_loop heap budget (toRemove # rest) remaining currentTokens =
     (if currentTokens \<le> budget then remaining
      else budget_loop heap budget rest
             (filter (\<lambda>s. s \<noteq> toRemove) remaining)
             (currentTokens - int (sec_tokens (heap toRemove))))"

definition enforceTokenBudget :: "('r \<Rightarrow> PromptSection) \<Rightarrow> 'r list \<Rightarrow> int \<Rightarrow> 'r list" where
  "enforceTokenBudget heap sections budget =
     (let totalTokens = sum_list (map (\<lambda>s. int (sec_tokens (heap s))) sections) in
      if totalTokens \<le> budget then sections
      else
        let removable =
              sort_key (\<lambda>s. - int (sec_priority (heap s)))
                (filter (\<lambda>s. sec_priority (heap s) > 0) sections)
        in budget_loop heap budget removable sections totalTokens)"

text \<open>The total cost of a list of sections.\<close>

definition total_cost :: "('r \<Rightarrow> PromptSection) \<Rightarrow> 'r list \<Rightarrow> int" where
  "total_cost heap sections = sum_list (map (\<lambda>s. int (sec_tokens (heap s))) sections)"


section \<open>Sessions, events and the session store\<close>

text \<open>
  Timestamps are ISO strings in the source and are only ever compared after
  \<open>new Date(...).getTime()\<close>; here a timestamp is the instant it denotes, in milliseconds.
  The free-form \<open>data\<close> payload of an event is a list of named JavaScript values.
\<close>

datatype SessionStatus = Idle | Running | Paused | Completed | Failed

datatype jsval = JString string | JNumber real | JBool bool | JUndefined

record SessionEvent =
  ev_timestamp :: int
  ev_type :: string
  ev_agent :: string
  ev_phase :: "string option"
  ev_data :: "(string \<times> jsval) list option"

record SessionState =
  sessionId :: string
  workflowId :: string
  activeMission :: string
  currentAgent :: string
  currentPhase :: string
  status :: SessionStatus
  startedAt :: int
  title :: "string option"
  promptCount :: nat
  lastActivity :: "int option"
  contextBracket :: ContextBracket
  tokens :: nat
  costUsd :: real
  events :: "SessionEvent list"

text \<open>The mutation that \<open>SessionStore.save\<close> performs on the session before writing it.\<close>

definition save :: "SessionState \<Rightarrow> nat option \<Rightarrow> SessionState" where
  "save session maxEvents = session\<lparr>events := save_events (events session) maxEvents\<rparr>"


section \<open>Session manager: crash detection\<close>

record CrashInfo =
  crash_sessionId :: string
  crash_lastActivity :: int
  crash_minutesSinceActivity :: int
  crash_lastPhase :: string
  crash_lastAgent :: string

definition DEFAULT_CRASH_MINUTES :: int where
  "DEFAULT_CRASH_MINUTES = 30"

text \<open>\<open>session.lastActivity || session.startedAt\<close>\<close>

definition last_activity_or_start :: "SessionState \<Rightarrow> int" where
  "last_activity_or_start session =
     (case lastActivity session of Some t \<Rightarrow> t | None \<Rightarrow> startedAt session)"

text \<open>
  The first argument is the value of \<open>Date.now()\<close>. \<open>crashMinutes\<close> is an optional argument
  with a default value. The function returns \<open>CrashInfo | null\<close> and assigns to no field of
  the session, so the session is not part of the result.
\<close>

definition detectCrashedSession :: "int \<Rightarrow> SessionState \<Rightarrow> int option \<Rightarrow> CrashInfo option" where
  "detectCrashedSession now session crashMinutes =
     (let crashMinutes = (case crashMinutes of None \<Rightarrow> DEFAULT_CRASH_MINUTES | Some m \<Rightarrow> m) in
      if status session \<in> set [Completed, Paused, Failed, Idle] then None
      else
        let lastActivity = last_activity_or_start session;
            elapsed = now - lastActivity;
            minutes = elapsed div 60000
        in if minutes < crashMinutes then None
           else Some \<lparr>crash_sessionId = sessionId session,
                      crash_lastActivity = lastActivity,
                      crash_minutesSinceActivity = minutes,
                      crash_lastPhase = currentPhase session,
                      crash_lastAgent = currentAgent session\<rparr>)"


section \<open>Workflows\<close>

datatype Gate = user_approval | auto_pass | user_acceptance

text \<open>
  \<open>decision\<close> is a record from output substrings to phase ids; it is held as the list of its
  entries in the order of \<open>Object.entries\<close>. The fields of \<open>WorkflowDefinition\<close> carry the prefix
  \<open>wf_\<close>, with \<open>workflow.id\<close> and \<open>workflow.name\<close> flattened to \<open>wf_id\<close> and \<open>wf_name\<close>.
\<close>

record WorkflowPhase =
  ph_id :: string
  ph_name :: string
  ph_agent :: string
  ph_task :: string
  ph_next :: "string option"
  ph_gate :: "Gate option"
  ph_decision :: "(string \<times> string) list option"
  ph_parallel :: "bool option"
  ph_skippable :: "bool option"
  ph_dependsOn :: "string list option"
  ph_retry :: int
  ph_timeoutMs :: "nat option"

record WorkflowDefinition =
  wf_id :: string
  wf_name :: string
  wf_description :: "string option"
  wf_phases :: "WorkflowPhase list"
  wf_flow :: "string option"

record RunnerResult =
  res_output :: string
  res_exitCode :: int
  res_tokensUsed :: nat
  res_costUsd :: real
  res_error :: "string option"
  res_durationMs :: nat

text \<open>\<open>xs.findIndex(P)\<close>, with \<open>None\<close> for \<open>-1\<close>.\<close>

fun findIndex :: "('a \<Rightarrow> bool) \<Rightarrow> 'a list \<Rightarrow> nat option" where
  "findIndex P [] = None"
| "findIndex P (x # xs) = (if P x then Some 0 else map_option Suc (findIndex P xs))"


section \<open>Workflow engine: wave planning\<close>

text \<open>\<open>p.dependsOn || []\<close>\<close>

definition deps_of :: "WorkflowPhase \<Rightarrow> string list" where
  "deps_of p = (case ph_dependsOn p of None \<Rightarrow> [] | Some ds \<Rightarrow> ds)"

text \<open>
  \<open>remaining.splice(remaining.indexOf(p), 1)\<close>: the first occurrence of \<open>p\<close> is removed; were
  \<open>p\<close> absent, \<open>indexOf\<close> would give \<open>-1\<close> and \<open>splice(-1, 1)\<close> would remove the last element.
  \<open>indexOf\<close> compares object identities and the model compares values; the phases that are
  removed in one pass are all the eligible ones, and eligibility depends on the value only,
  so both leave the same list of values.
\<close>

definition splice_indexOf :: "'a \<Rightarrow> 'a list \<Rightarrow> 'a list" where
  "splice_indexOf p xs = (if p \<in> set xs then remove1 p xs else butlast xs)"

lemma length_splice_indexOf: "length (splice_indexOf p xs) \<le> length xs"
  by (simp add: splice_indexOf_def length_remove1)

lemma length_fold_splice_indexOf: "length (fold splice_indexOf ps xs) \<le> length xs"
proof (induction ps arbitrary: xs)
  case Nil
  then show ?case by simp
next
  case (Cons p ps)
  have "length (fold splice_indexOf ps (splice_indexOf p xs)) \<le> length (splice_indexOf p xs)"
    by (rule Cons.IH)
  also have "\<dots> \<le> length xs" by (rule length_splice_indexOf)
  finally show ?case by simp
qed

lemma length_fold_splice_wave:
  assumes "filter P xs \<noteq> []"
  shows "length (fold splice_indexOf (filter P xs) xs) < length xs"
proof -
  obtain p ps where w: "filter P xs = p # ps" using assms by (cases "filter P xs") auto
  then have "p \<in> set (filter P xs)" by simp
  then have p: "p \<in> set xs" by simp
  then have "xs \<noteq> []" by auto
  with p have "length (splice_indexOf p xs) < length xs"
    by (simp add: splice_indexOf_def length_remove1)
  moreover have "length (fold splice_indexOf ps (splice_indexOf p xs)) \<le> length (splice_indexOf p xs)"
    by (rule length_fold_splice_indexOf)
  ultimately show ?thesis unfolding w by simp
qed

text \<open>
  The loop of \<open>calculateWaves\<close>, with the set \<open>completed\<close>, the array \<open>remaining\<close> and the waves
  found so far. The result also says whether the warning about a circular dependency was
  printed, that is, whether the remaining phases were appended as waves of one phase each.
\<close>

function waves_loop ::
  "string set \<Rightarrow> WorkflowPhase list \<Rightarrow> WorkflowPhase list list \<Rightarrow> WorkflowPhase list list \<times> bool"
  where
  "waves_loop completed remaining waves =
     (if remaining = [] then (waves, False)
      else
        let wave = filter (\<lambda>p. list_all (\<lambda>d. d \<in> completed) (deps_of p)) remaining in
        if wave = [] then (waves @ map (\<lambda>p. [p]) remaining, True)
        else waves_loop (completed \<union> set (map ph_id wave))
               (fold splice_indexOf wave remaining) (waves @ [wave]))"
  by pat_completeness auto
termination
  by (relation "measure (\<lambda>(completed, remaining, waves). length remaining)")
     (auto simp: length_fold_splice_wave)

definition calculateWaves :: "WorkflowPhase list \<Rightarrow> WorkflowPhase list list \<times> bool" where
  "calculateWaves phases = waves_loop {} phases []"

text \<open>
  The property of a wave plan: every dependency of a phase of wave \<open>k\<close> is the id of a phase
  of an earlier wave.
\<close>

definition topological :: "WorkflowPhase list list \<Rightarrow> bool" where
  "topological waves \<longleftrightarrow>
     (\<forall>k < length waves. \<forall>p \<in> set (waves ! k). \<forall>d \<in> set (deps_of p).
        \<exists>j < k. d \<in> ph_id ` set (waves ! j))"


section \<open>Workflow engine: the world of a run\<close>

text \<open>
  The engine calls the session store, the dashboard projection, the handoff generator, the
  hook bus, the decision log, the prompt compiler, the gotchas memory, the timer and the
  agent executor. Each call is recorded as an effect, in the order of the calls; console
  output is left out. The collaborators are taken to return normally, except the executor,
  whose exceptions \<open>executePrompt\<close> catches. \<open>RunExecutor k\<close> is the call of \<open>executor.run\<close> that is
  number \<open>k\<close> of the run, counted from 0.
\<close>

datatype effect =
    Persist SessionState
  | UpdateDashboard SessionState
  | WriteHandoff SessionState string
  | HookEmit string
  | RecordDecision string
  | CompilePrompt string string nat
  | RecordGotcha string string
  | Backoff nat
  | RunExecutor nat

text \<open>
  The mutable state: the session object, the effects so far and the number of executor
  calls so far.
\<close>

record world =
  w_session :: SessionState
  w_trace :: "effect list"
  w_runs :: nat

text \<open>
  What a run reads and does not change: the clock (read as one instant), the context window
  of the configured runner (\<open>getMaxContextForRunner(config.project.runner)\<close>), whether
  \<open>createExecutor\<close> gives the manual executor, the configured crash threshold, and the answers
  of the executor: \<open>env_executor env k\<close> is what call number \<open>k\<close> returns, \<open>Inl\<close> an exception
  with its message.
\<close>

record environment =
  env_now :: int
  env_maxCtx :: real
  env_manual :: bool
  env_crashMinutes :: int
  env_executor :: "nat \<Rightarrow> string + RunnerResult"

definition emit :: "effect \<Rightarrow> world \<Rightarrow> world" where
  "emit e w = w\<lparr>w_trace := w_trace w @ [e]\<rparr>"

text \<open>\<open>session.events.push(ev)\<close>\<close>

definition push_event :: "SessionEvent \<Rightarrow> world \<Rightarrow> world" where
  "push_event ev w = w\<lparr>w_session := (w_session w)\<lparr>events := events (w_session w) @ [ev]\<rparr>\<rparr>"

text \<open>\<open>await this.store.save(session)\<close>: the log is trimmed in place and the session is written.\<close>

definition store_save :: "world \<Rightarrow> world" where
  "store_save w = (let s = save (w_session w) None in emit (Persist s) (w\<lparr>w_session := s\<rparr>))"

definition updateDashboard :: "world \<Rightarrow> world" where
  "updateDashboard w = emit (UpdateDashboard (w_session w)) w"

definition bracket_name :: "ContextBracket \<Rightarrow> string" where
  "bracket_name b =
     (case b of FRESH \<Rightarrow> ''FRESH'' | MODERATE \<Rightarrow> ''MODERATE''
      | DEPLETED \<Rightarrow> ''DEPLETED'' | CRITICAL \<Rightarrow> ''CRITICAL'')"

text \<open>\<open>s.replace(pat, '')\<close> for a string pattern: the first occurrence is removed.\<close>

fun replace_first :: "string \<Rightarrow> string \<Rightarrow> string" where
  "replace_first pat [] = []"
| "replace_first pat (c # cs) =
     (if prefix pat (c # cs) then drop (length pat) (c # cs) else c # replace_first pat cs)"


section \<open>Workflow engine: the life of a phase\<close>

definition preparePhase :: "environment \<Rightarrow> WorkflowPhase \<Rightarrow> world \<Rightarrow> world" where
  "preparePhase env phase w =
     (let s = w_session w;
          n = promptCount s + 1;
          config = getBracket (real n) (Some (env_maxCtx env));
          s1 = s\<lparr>currentAgent := ph_agent phase, currentPhase := ph_id phase,
                 promptCount := n, lastActivity := Some (env_now env),
                 contextBracket := bracket config\<rparr>;
          w1 = push_event
                 \<lparr>ev_timestamp = env_now env, ev_type = ''PHASE_START'',
                  ev_agent = ph_agent phase, ev_phase = Some (ph_id phase),
                  ev_data = Some [(''name'', JString (ph_name phase)),
                                  (''task'', JString (ph_task phase)),
                                  (''bracket'', JString (bracket_name (bracket config)))]\<rparr>
                 (w\<lparr>w_session := s1\<rparr>);
          w2 = store_save w1;
          w3 = emit (HookEmit ''step:start'') w2;
          taskId = replace_first ''.yaml'' (replace_first ''.md'' (ph_task phase))
      in emit (CompilePrompt (ph_agent phase) taskId n) w3)"

definition pauseAtGate ::
  "environment \<Rightarrow> WorkflowPhase \<Rightarrow> WorkflowDefinition \<Rightarrow> world \<Rightarrow> world" where
  "pauseAtGate env phase workflow w =
     (let w1 = push_event
                 \<lparr>ev_timestamp = env_now env, ev_type = ''GATE_PAUSE'',
                  ev_agent = ph_agent phase, ev_phase = Some (ph_id phase),
                  ev_data = Some [(''gate'', JString ''user_approval'')]\<rparr>
                 (w\<lparr>w_session := (w_session w)\<lparr>status := Paused\<rparr>\<rparr>);
          w2 = store_save w1;
          w3 = updateDashboard w2;
          w4 = emit (WriteHandoff (w_session w3) ''paused (gate: user_approval)'') w3;
          w5 = emit (HookEmit ''session:pause'') w4
      in emit (RecordDecision (''Gate: '' @ ph_name phase)) w5)"

definition handlePhaseFailed ::
  "environment \<Rightarrow> WorkflowPhase \<Rightarrow> WorkflowDefinition \<Rightarrow> RunnerResult \<Rightarrow> world \<Rightarrow> world" where
  "handlePhaseFailed env phase workflow result w =
     (let w1 = push_event
                 \<lparr>ev_timestamp = env_now env, ev_type = ''PHASE_FAILED'',
                  ev_agent = ph_agent phase, ev_phase = Some (ph_id phase),
                  ev_data = Some [(''error'', (case res_error result of
                                                 None \<Rightarrow> JUndefined | Some e \<Rightarrow> JString e)),
                                  (''exitCode'', JNumber (real_of_int (res_exitCode result)))]\<rparr>
                 (w\<lparr>w_session := (w_session w)\<lparr>status := Failed\<rparr>\<rparr>);
          w2 = store_save w1;
          w3 = updateDashboard w2;
          reason = ''failed at phase '' @ ph_id phase @ '': '' @
                     (case res_error result of None \<Rightarrow> ''undefined'' | Some e \<Rightarrow> take 100 e);
          w4 = emit (WriteHandoff (w_session w3) reason) w3;
          w5 = emit (HookEmit ''step:failed'') w4
      in emit (RecordDecision (''Failed: '' @ ph_name phase)) w5)"

definition completePhase ::
  "environment \<Rightarrow> WorkflowPhase \<Rightarrow> RunnerResult \<Rightarrow> world \<Rightarrow> world" where
  "completePhase env phase result w =
     (let w1 = push_event
                 \<lparr>ev_timestamp = env_now env, ev_type = ''PHASE_COMPLETE'',
                  ev_agent = ph_agent phase, ev_phase = Some (ph_id phase),
                  ev_data = Some [(''tokens'', JNumber (real (res_tokensUsed result))),
                                  (''cost'', JNumber (res_costUsd result)),
                                  (''durationMs'', JNumber (real (res_durationMs result)))]\<rparr>
                 w;
          w2 = store_save w1;
          w3 = updateDashboard w2
      in emit (HookEmit ''step:complete'') w3)"

text \<open>
  \<open>executePrompt\<close>. The manual executor is not run. Otherwise \<open>executor.run\<close> is called once;
  when it returns, the session's counters are updated and a failure that carries a
  non-empty error text is recorded in the gotchas memory; when it throws, the exception
  becomes a result with exit code 1.
\<close>

definition executePrompt ::
  "environment \<Rightarrow> WorkflowPhase \<Rightarrow> world \<Rightarrow> RunnerResult \<times> world" where
  "executePrompt env phase w =
     (if env_manual env then
        (\<lparr>res_output = [], res_exitCode = 0, res_tokensUsed = 0, res_costUsd = 0,
          res_error = None, res_durationMs = 0\<rparr>, w)
      else
        let w1 = (emit (RunExecutor (w_runs w)) w)\<lparr>w_runs := w_runs w + 1\<rparr> in
        case env_executor env (w_runs w) of
          Inr result \<Rightarrow>
            let s = w_session w1;
                w2 = w1\<lparr>w_session := s\<lparr>tokens := tokens s + res_tokensUsed result,
                                         costUsd := costUsd s + res_costUsd result,
                                         lastActivity := Some (env_now env)\<rparr>\<rparr>
            in (result,
                if res_exitCode result \<noteq> 0 then
                  (case res_error result of
                     None \<Rightarrow> w2
                   | Some e \<Rightarrow> if e \<noteq> [] then emit (RecordGotcha e (ph_agent phase)) w2 else w2)
                else w2)
        | Inl errorMsg \<Rightarrow>
            (\<lparr>res_output = [], res_exitCode = 1, res_tokensUsed = 0, res_costUsd = 0,
              res_error = Some errorMsg, res_durationMs = 0\<rparr>,
             emit (RecordGotcha errorMsg (ph_agent phase)) w1))"

text \<open>
  The \<open>do ... while\<close> loop of \<open>executeWithRetry\<close>; \<open>attempt\<close> is the counter at the start of the
  body. \<open>phase.retry || 0\<close> is \<open>phase.retry\<close>.
\<close>

function retry_loop ::
  "environment \<Rightarrow> WorkflowPhase \<Rightarrow> int \<Rightarrow> nat \<Rightarrow> world \<Rightarrow> RunnerResult \<times> world" where
  "retry_loop env phase maxRetries attempt w =
     (let w1 = (if attempt > 0
                then emit (Backoff (min (1000 * 2 ^ (attempt - 1)) 30000)) w else w)
      in case executePrompt env phase w1 of
           (result, w2) \<Rightarrow>
             if res_exitCode result \<noteq> 0 \<and> int (attempt + 1) \<le> maxRetries
             then retry_loop env phase maxRetries (attempt + 1) w2
             else (result, w2))"
  by pat_completeness auto
termination
  by (relation "measure (\<lambda>(env, phase, maxRetries, attempt, w). nat (maxRetries + 1 - int attempt))")
     auto

declare retry_loop.simps [simp del]

definition executeWithRetry ::
  "environment \<Rightarrow> WorkflowPhase \<Rightarrow> world \<Rightarrow> RunnerResult \<times> world" where
  "executeWithRetry env phase w = retry_loop env phase (ph_retry phase) 0 w"

text \<open>\<open>executeSinglePhase\<close>, the phase of a wave; the result says whether the run stops.\<close>

definition executeSinglePhase ::
  "environment \<Rightarrow> WorkflowPhase \<Rightarrow> WorkflowDefinition \<Rightarrow> world \<Rightarrow> bool \<times> world" where
  "executeSinglePhase env phase workflow w =
     (let w1 = preparePhase env phase w in
      if ph_gate phase = Some user_approval then (True, pauseAtGate env phase workflow w1)
      else
        case executeWithRetry env phase w1 of
          (result, w2) \<Rightarrow>
            if res_exitCode result \<noteq> 0
            then (True, handlePhaseFailed env phase workflow result w2)
            else (False, completePhase env phase result w2))"


section \<open>Workflow engine: linear execution\<close>

text \<open>\<open>toLowerCase\<close> on the ASCII letters.\<close>

definition lower_char :: "char \<Rightarrow> char" where
  "lower_char c =
     (let n = (of_char c :: nat) in if 65 \<le> n \<and> n \<le> 90 then char_of (n + 32) else c)"

definition toLowerCase :: "string \<Rightarrow> string" where
  "toLowerCase s = map lower_char s"

text \<open>
  Decision routing: the first entry whose key occurs in the output, letter case ignored,
  and whose target is the id of a phase.
\<close>

fun decide :: "WorkflowPhase list \<Rightarrow> string \<Rightarrow> (string \<times> string) list \<Rightarrow> nat option" where
  "decide phases out [] = None"
| "decide phases out ((key, nextId) # rest) =
     (if sublist (toLowerCase key) (toLowerCase out) then
        (case findIndex (\<lambda>p. ph_id p = nextId) phases of
           Some decidedIndex \<Rightarrow> Some decidedIndex
         | None \<Rightarrow> decide phases out rest)
      else decide phases out rest)"

text \<open>
  The index \<open>executePhase\<close> continues with after a completed phase: the decision, else the
  \<open>next\<close> pointer, else the following index.
\<close>

definition next_phase_index ::
  "WorkflowDefinition \<Rightarrow> WorkflowPhase \<Rightarrow> nat \<Rightarrow> RunnerResult \<Rightarrow> nat" where
  "next_phase_index workflow phase phaseIndex result =
     (let decided =
            (case ph_decision phase of
               None \<Rightarrow> None
             | Some entries \<Rightarrow>
                 if res_output result \<noteq> []
                 then decide (wf_phases workflow) (res_output result) entries else None);
          pointed =
            (case ph_next phase of
               None \<Rightarrow> None
             | Some nextPhaseId \<Rightarrow>
                 if nextPhaseId \<noteq> []
                 then findIndex (\<lambda>p. ph_id p = nextPhaseId) (wf_phases workflow) else None)
      in case decided of
           Some i \<Rightarrow> i
         | None \<Rightarrow> (case pointed of Some i \<Rightarrow> i | None \<Rightarrow> phaseIndex + 1))"

text \<open>The branch of \<open>executePhase\<close> for an index past the last phase.\<close>

definition complete_session :: "environment \<Rightarrow> world \<Rightarrow> world" where
  "complete_session env w =
     (let w1 = push_event
                 \<lparr>ev_timestamp = env_now env, ev_type = ''SESSION_COMPLETE'',
                  ev_agent = ''master'', ev_phase = None, ev_data = None\<rparr>
                 (w\<lparr>w_session := (w_session w)\<lparr>status := Completed\<rparr>\<rparr>);
          w2 = store_save w1;
          w3 = updateDashboard w2
      in emit (HookEmit ''session:complete'') w3)"

text \<open>
  \<open>executePhase\<close> calls itself for the next phase, and a workflow whose \<open>next\<close> pointers form a
  cycle never ends when every phase succeeds: the result is \<open>None\<close> when the run does not
  end.
\<close>

partial_function (option) executePhase ::
  "environment \<Rightarrow> WorkflowDefinition \<Rightarrow> nat \<Rightarrow> world \<Rightarrow> world option" where
  "executePhase env workflow phaseIndex w =
     (if phaseIndex \<ge> length (wf_phases workflow) then Some (complete_session env w)
      else
        let phase = wf_phases workflow ! phaseIndex;
            w1 = preparePhase env phase w
        in if ph_gate phase = Some user_approval
           then Some (pauseAtGate env phase workflow w1)
           else
             case executeWithRetry env phase w1 of
               (result, w2) \<Rightarrow>
                 if res_exitCode result \<noteq> 0
                 then Some (handlePhaseFailed env phase workflow result w2)
                 else executePhase env workflow
                        (next_phase_index workflow phase phaseIndex result)
                        (completePhase env phase result w2))"


section \<open>Workflow engine: resume\<close>

text \<open>
  The phase ids \<open>resume\<close> and \<open>executeWaves\<close> take as completed:
  \<open>events.filter(e => e.type === 'PHASE_COMPLETE').map(e => e.phase)\<close>; an event without a phase
  gives \<open>undefined\<close>, here \<open>None\<close>.
\<close>

definition completedPhases :: "SessionEvent list \<Rightarrow> string option list" where
  "completedPhases evs = map ev_phase (filter (\<lambda>e. ev_type e = ''PHASE_COMPLETE'') evs)"

text \<open>\<open>workflow.phases.some(p => p.dependsOn && p.dependsOn.length > 0)\<close>\<close>

definition hasDependsOn :: "WorkflowDefinition \<Rightarrow> bool" where
  "hasDependsOn workflow =
     list_ex (\<lambda>p. case ph_dependsOn p of None \<Rightarrow> False | Some ds \<Rightarrow> length ds > 0)
       (wf_phases workflow)"

text \<open>
  \<open>resume\<close>, for the loaded session and the loaded workflow, up to the call it ends with:
  \<open>executePhase\<close> at an index, \<open>executeWaves\<close>, or none.
\<close>

datatype resume_call = ExecutePhase nat | ExecuteWaves

definition resume ::
  "environment \<Rightarrow> WorkflowDefinition \<Rightarrow> world \<Rightarrow> resume_call option \<times> world" where
  "resume env workflow w =
     (let s = w_session w in
      if status s = Completed then (None, w)
      else
        let crashInfo = detectCrashedSession (env_now env) s (Some (env_crashMinutes env));
            completed = completedPhases (events s);
            nextIndex = findIndex (\<lambda>p. Some (ph_id p) \<notin> set completed) (wf_phases workflow)
        in case nextIndex of
             None \<Rightarrow> (None, store_save (w\<lparr>w_session := s\<lparr>status := Completed\<rparr>\<rparr>))
           | Some i \<Rightarrow>
               let w1 = push_event
                          \<lparr>ev_timestamp = env_now env, ev_type = ''SESSION_RESUME'',
                           ev_agent = currentAgent s, ev_phase = None,
                           ev_data = Some [(''crashed'', JBool (crashInfo \<noteq> None))]\<rparr>
                          (w\<lparr>w_session := s\<lparr>status := Running,
                                               lastActivity := Some (env_now env)\<rparr>\<rparr>);
                   w2 = store_save w1;
                   w3 = emit (HookEmit ''session:resume'') w2
               in (Some (if hasDependsOn workflow then ExecuteWaves else ExecutePhase i), w3))"

text \<open>
  The waves \<open>executeWaves\<close> dispatches, in their order, as long as no phase stops the run: the
  planned waves without the phases that are completed, and without the waves that are
  empty then.
\<close>

definition executeWaves_plan :: "WorkflowDefinition \<Rightarrow> SessionState \<Rightarrow> WorkflowPhase list list" where
  "executeWaves_plan workflow s =
     (let waves = fst (calculateWaves (wf_phases workflow));
          completed = set (completedPhases (events s))
      in filter (\<lambda>wave. wave \<noteq> [])
           (map (filter (\<lambda>p. Some (ph_id p) \<notin> completed)) waves))"

text \<open>
  The phases \<open>resume\<close> starts first: the phase at the index given to \<open>executePhase\<close>, or the
  first wave \<open>executeWaves\<close> dispatches.
\<close>

definition resume_first_phases ::
  "environment \<Rightarrow> WorkflowDefinition \<Rightarrow> world \<Rightarrow> WorkflowPhase list" where
  "resume_first_phases env workflow w =
     (case resume env workflow w of
        (None, w') \<Rightarrow> []
      | (Some (ExecutePhase i), w') \<Rightarrow> take 1 (drop i (wf_phases workflow))
      | (Some ExecuteWaves, w') \<Rightarrow>
          (case executeWaves_plan workflow (w_session w') of
             [] \<Rightarrow> []
           | wave # _ \<Rightarrow> wave))"

text \<open>
  The completed phases a resumed run works with. \<open>resume\<close> computes them from the loaded log,
  for the test whether a phase is left and for the index it gives to \<open>executePhase\<close>;
  \<open>executeWaves\<close> computes them again, from the log as \<open>resume\<close> has left it: after the resume
  event has been pushed and the session saved.
\<close>

definition resume_completed ::
  "environment \<Rightarrow> WorkflowDefinition \<Rightarrow> world \<Rightarrow> string option list" where
  "resume_completed env workflow w =
     (case resume env workflow w of
        (Some ExecuteWaves, w') \<Rightarrow> completedPhases (events (w_session w'))
      | (_, w') \<Rightarrow> completedPhases (events (w_session w)))"


section \<open>Retry schedule\<close>

text \<open>The exit code \<open>executePrompt\<close> reports for an answer of the executor.\<close>

definition exit_of :: "string + RunnerResult \<Rightarrow> int" where
  "exit_of outcome = (case outcome of Inl msg \<Rightarrow> 1 | Inr result \<Rightarrow> res_exitCode result)"

text \<open>The effects that are a sleep or a call of the executor.\<close>

fun is_timing :: "effect \<Rightarrow> bool" where
  "is_timing (Backoff ms) = True"
| "is_timing (RunExecutor k) = True"
| "is_timing _ = False"

text \<open>
  The schedule as the specification words it: \<open>n\<close> calls of the executor, the first of them
  attempt number \<open>attempt\<close> and call number \<open>k\<close> of the run, where every attempt but attempt 0
  comes after a sleep of \<open>min(1s * 2^(attempt - 1), 30s)\<close>, in milliseconds.
\<close>

fun spec_retry_trace :: "nat \<Rightarrow> nat \<Rightarrow> nat \<Rightarrow> effect list" where
  "spec_retry_trace attempt k 0 = []"
| "spec_retry_trace attempt k (Suc n) =
     (if attempt = 0 then [] else [Backoff (min (1000 * 2 ^ (attempt - 1)) 30000)]) @
     [RunExecutor k] @ spec_retry_trace (Suc attempt) (Suc k) n"


section \<open>The gate event\<close>

text \<open>The event \<open>pauseAtGate\<close> pushes.\<close>

definition gate_event :: "environment \<Rightarrow> WorkflowPhase \<Rightarrow> SessionEvent" where
  "gate_event env phase =
     \<lparr>ev_timestamp = env_now env, ev_type = ''GATE_PAUSE'', ev_agent = ph_agent phase,
      ev_phase = Some (ph_id phase), ev_data = Some [(''gate'', JString ''user_approval'')]\<rparr>"

section \<open>Example data\<close>

text \<open>The sections of the unit tests of \<open>enforceTokenBudget\<close>, at the references 0 to 5.\<close>

definition test_sections :: "nat \<Rightarrow> PromptSection" where
  "test_sections r =
     (if r = 0 then \<lparr>sec_name = ''agent'', sec_content = ''x'', sec_priority = 0, sec_tokens = 100\<rparr>
      else if r = 1 then \<lparr>sec_name = ''history'', sec_content = ''y'', sec_priority = 6, sec_tokens = 200\<rparr>
      else if r = 2 then \<lparr>sec_name = ''index'', sec_content = ''z'', sec_priority = 5, sec_tokens = 150\<rparr>
      else if r = 3 then \<lparr>sec_name = ''agent'', sec_content = ''x'', sec_priority = 0, sec_tokens = 5000\<rparr>
      else if r = 4 then \<lparr>sec_name = ''task'', sec_content = ''y'', sec_priority = 0, sec_tokens = 5000\<rparr>
      else \<lparr>sec_name = ''task'', sec_content = ''y'', sec_priority = 0, sec_tokens = 100\<rparr>)"

text \<open>A running session whose log holds the start event and one phase start.\<close>

definition start_event :: SessionEvent where
  "start_event = \<lparr>ev_timestamp = 0, ev_type = ''SESSION_START'', ev_agent = ''master'',
     ev_phase = None, ev_data = Some [(''workflowId'', JString ''wf-1''), (''mission'', JString ''Test'')]\<rparr>"

definition build_start_event :: SessionEvent where
  "build_start_event = \<lparr>ev_timestamp = 0, ev_type = ''PHASE_START'', ev_agent = ''dev'',
     ev_phase = Some ''build'', ev_data = None\<rparr>"

definition test_session :: SessionState where
  "test_session = \<lparr>sessionId = ''test-sess'', workflowId = ''wf-1'', activeMission = ''Test'',
     currentAgent = ''dev'', currentPhase = ''build'', status = Running, startedAt = 0,
     title = None, promptCount = 0, lastActivity = Some 0, contextBracket = FRESH,
     tokens = 0, costUsd = 0, events = [start_event, build_start_event]\<rparr>"

text \<open>Phases that differ in their id and their dependencies only.\<close>

definition test_phase :: "string \<Rightarrow> string list option \<Rightarrow> WorkflowPhase" where
  "test_phase i deps =
     \<lparr>ph_id = i, ph_name = i, ph_agent = ''dev'', ph_task = ''build.md'', ph_next = None,
      ph_gate = None, ph_decision = None, ph_parallel = None, ph_skippable = None,
      ph_dependsOn = deps, ph_retry = 0, ph_timeoutMs = None\<rparr>"

text \<open>
  An executor that fails on its first two calls and succeeds from the third on, and the
  world of a run that has made no call yet.
\<close>

definition failed_result :: RunnerResult where
  "failed_result = \<lparr>res_output = [], res_exitCode = 2, res_tokensUsed = 10, res_costUsd = 0,
     res_error = Some ''boom'', res_durationMs = 5\<rparr>"

definition ok_result :: RunnerResult where
  "ok_result = \<lparr>res_output = ''done'', res_exitCode = 0, res_tokensUsed = 20, res_costUsd = 0,
     res_error = None, res_durationMs = 5\<rparr>"

definition test_env :: environment where
  "test_env = \<lparr>env_now = 0, env_maxCtx = 200000, env_manual = False, env_crashMinutes = 30,
     env_executor = (\<lambda>k. if k < 2 then Inr failed_result else Inr ok_result)\<rparr>"

definition test_world :: world where
  "test_world = \<lparr>w_session = test_session, w_trace = [], w_runs = 0\<rparr>"

text \<open>A phase that may be retried twice.\<close>

definition retry_phase :: WorkflowPhase where
  "retry_phase = (test_phase ''build'' None)\<lparr>ph_retry := 2\<rparr>"

text \<open>
  A phase behind a user-approval gate, a linear workflow of two phases, a workflow whose
  first listed phase depends on the second, and the event that completes \<open>build\<close>.
\<close>

definition gated_phase :: WorkflowPhase where
  "gated_phase = (test_phase ''build'' None)\<lparr>ph_gate := Some user_approval, ph_next := Some ''review''\<rparr>"

definition gated_workflow :: WorkflowDefinition where
  "gated_workflow = \<lparr>wf_id = ''gated'', wf_name = ''Gated Workflow'', wf_description = None,
     wf_phases = [gated_phase, test_phase ''review'' None], wf_flow = None\<rparr>"

definition linear_workflow :: WorkflowDefinition where
  "linear_workflow = \<lparr>wf_id = ''multi'', wf_name = ''Multi Phase'', wf_description = None,
     wf_phases = [test_phase ''build'' None, test_phase ''review'' None], wf_flow = None\<rparr>"

definition wave_workflow :: WorkflowDefinition where
  "wave_workflow = \<lparr>wf_id = ''wave'', wf_name = ''Wave Workflow'', wf_description = None,
     wf_phases = [test_phase ''A'' (Some [''B'']), test_phase ''B'' None], wf_flow = None\<rparr>"

definition build_complete_event :: SessionEvent where
  "build_complete_event = \<lparr>ev_timestamp = 0, ev_type = ''PHASE_COMPLETE'', ev_agent = ''dev'',
     ev_phase = Some ''build'', ev_data = None\<rparr>"

text \<open>
  A workflow in which \<open>B\<close> depends on \<open>A\<close>, the event that completes \<open>A\<close>, a log that holds the
  start event, that event and \<open>n\<close> phase starts, and the test world with a given log.
\<close>

definition chain_workflow :: WorkflowDefinition where
  "chain_workflow = \<lparr>wf_id = ''chain'', wf_name = ''Chain'', wf_description = None,
     wf_phases = [test_phase ''A'' None, test_phase ''B'' (Some [''A''])], wf_flow = None\<rparr>"

definition a_complete_event :: SessionEvent where
  "a_complete_event = \<lparr>ev_timestamp = 0, ev_type = ''PHASE_COMPLETE'', ev_agent = ''dev'',
     ev_phase = Some ''A'', ev_data = None\<rparr>"

definition full_log :: "nat \<Rightarrow> SessionEvent list" where
  "full_log n = start_event # a_complete_event # replicate n build_start_event"

definition world_with :: "SessionEvent list \<Rightarrow> world" where
  "world_with evs = test_world\<lparr>w_session := test_session\<lparr>events := evs\<rparr>\<rparr>"


section \<open>Verification: token estimation\<close>

lemma split_keep_char_not_Nil: "split_keep_char P s \<noteq> []"
  by (induction s) (auto split: list.splits)

lemma split_keep_char_first: "\<forall>c \<in> set (hd (split_keep_char P s)). \<not> P c"
  by (induction s) (auto split: list.splits simp: split_keep_char_not_Nil)

lemma split_keep_char_parts:
  "p \<in> set (split_keep_char P s) \<Longrightarrow> p = [] \<or> (\<exists>c. p = [c] \<and> P c) \<or> (\<forall>c \<in> set p. \<not> P c)"
proof (induction s arbitrary: p)
  case Nil
  then show ?case by simp
next
  case (Cons a s)
  show ?case
  proof (cases "P a")
    case True
    with Cons show ?thesis by auto
  next
    case False
    obtain q qs where q: "split_keep_char P s = q # qs"
      using split_keep_char_not_Nil[of P s] by (cases "split_keep_char P s") auto
    have "\<forall>c \<in> set q. \<not> P c"
      using split_keep_char_first[of P s] q by simp
    then have "\<forall>c \<in> set (a # q). \<not> P c"
      using False by simp
    moreover have "p = a # q \<or> p \<in> set qs"
      using Cons.prems False q by simp
    moreover have "p \<in> set qs \<Longrightarrow> ?thesis"
      using Cons.IH[of p] q by simp
    ultimately show ?thesis by blast
  qed
qed

text \<open>
  A part that holds a non-ASCII code unit is that code unit alone: the split at every
  character outside \<open>[a-zA-Z0-9_]\<close> has already separated it, and the branch for single
  punctuation characters counts it as one token. The branch of \<open>estimateTokens\<close> that adds
  two tokens per non-ASCII character is never reached.
\<close>

lemma non_ascii_part_is_single:
  assumes "p \<in> set (split_keep_char (\<lambda>c. \<not> is_word c) seg)" and "c \<in> set p" and "\<not> is_ascii c"
  shows "p = [c] \<and> part_tokens p = 1"
proof -
  have nw: "\<not> is_word c"
    using assms(3) by (auto simp: is_word_def is_ascii_def is_lower_def is_upper_def is_digit_def)
  from split_keep_char_parts[OF assms(1)] assms(2) nw
  have "\<exists>d. p = [d] \<and> \<not> is_word d" by auto
  then show ?thesis using assms(2) by (auto simp: part_tokens_def)
qed

text \<open>
  C1 (the code does not compute the rule of the specification): the text of one accented
  character, U+00E9, is estimated at one token, and \<open>caf\<close> followed by U+00E9 at two, where
  the rule gives two tokens for the non-ASCII character alone and three for the word.
\<close>

theorem estimateTokens_accented_char:
  "estimateTokens [233] = 1 \<and> estimateTokens (utf16 ''caf'' @ [233]) = 2"
  by (simp add: utf16_def estimateTokens_def line_tokens_def segment_tokens_def part_tokens_def
      is_space_def is_word_def is_lower_def is_upper_def is_digit_def is_ascii_def
      estimateWordTokens_def)


section \<open>Verification: brackets\<close>

lemma estimateContextPercent_range:
  "0 \<le> estimateContextPercent n m \<and>
   estimateContextPercent n m \<le> 100"
  by (simp add: estimateContextPercent_def Let_def)

lemma bracket_search:
  assumes "0 \<le> p" "p \<le> 100"
  shows "\<exists>b. find (in_bracket p) (rev BRACKET_CONFIGS) = Some b \<and>
     b \<in> set BRACKET_CONFIGS \<and> in_bracket p b \<and>
     (\<forall>c \<in> set BRACKET_CONFIGS. in_bracket p c \<longrightarrow> minPercent b \<le> minPercent c) \<and>
     (p \<noteq> 25 \<and> p \<noteq> 40 \<and> p \<noteq> 60 \<longrightarrow> (\<forall>c \<in> set BRACKET_CONFIGS. in_bracket p c \<longrightarrow> c = b))"
  using assms by (auto simp: BRACKET_CONFIGS_def in_bracket_def)

text \<open>
  C2, as stated, fails: with \<open>promptCount = 3\<close> and \<open>maxContext = 14000\<close> the remaining
  capacity is exactly 25 percent, and both DEPLETED (25 to 40) and CRITICAL (0 to 25)
  contain it. Every number of this computation is exact in binary floating point
  (\<open>10500 / 14000 = 0.75\<close>).
\<close>

theorem getBracket_boundary_two_brackets:
  "estimateContextPercent 3 (Some 14000) = 25 \<and>
   in_bracket (estimateContextPercent 3 (Some 14000)) (BRACKET_CONFIGS ! 2) \<and>
   in_bracket (estimateContextPercent 3 (Some 14000)) (BRACKET_CONFIGS ! 3) \<and>
   bracket (BRACKET_CONFIGS ! 2) = DEPLETED \<and> bracket (BRACKET_CONFIGS ! 3) = CRITICAL \<and>
   bracket (getBracket 3 (Some 14000)) = CRITICAL"
  by (simp add: getBracket_def estimateContextPercent_def TOKENS_PER_ROUND_def
      BRACKET_CONFIGS_def in_bracket_def)

text \<open>
  C2, amended: for every \<open>promptCount \<ge> 0\<close> and \<open>maxContext > 0\<close>, \<open>getBracket\<close> returns one of
  the four configurations, that configuration contains the clamped percentage, no
  configuration that contains the percentage has a lower range, and unless the percentage
  is one of the shared bounds 25, 40 and 60 it is the only configuration that contains it.
  The search depends on the percentage only through its lying between 0 and 100, which the
  clamping gives whatever the rounding of the division.
\<close>

theorem getBracket_lowest_containing:
  assumes "0 \<le> n" "0 < m"
  shows "getBracket n (Some m) \<in> set BRACKET_CONFIGS \<and>
     in_bracket (estimateContextPercent n (Some m))
       (getBracket n (Some m)) \<and>
     (\<forall>c \<in> set BRACKET_CONFIGS.
        in_bracket (estimateContextPercent n (Some m)) c \<longrightarrow>
        minPercent (getBracket n (Some m)) \<le> minPercent c) \<and>
     (estimateContextPercent n (Some m) \<notin> {25, 40, 60} \<longrightarrow>
      (\<forall>c \<in> set BRACKET_CONFIGS.
        in_bracket (estimateContextPercent n (Some m)) c \<longrightarrow>
        c = getBracket n (Some m)))"
proof -
  let ?p = "estimateContextPercent n (Some m)"
  have "0 \<le> ?p" "?p \<le> 100" using estimateContextPercent_range by auto
  from bracket_search[OF this] obtain b where b: "find (in_bracket ?p) (rev BRACKET_CONFIGS) = Some b"
     "b \<in> set BRACKET_CONFIGS" "in_bracket ?p b"
     "\<forall>c \<in> set BRACKET_CONFIGS. in_bracket ?p c \<longrightarrow> minPercent b \<le> minPercent c"
     "?p \<noteq> 25 \<and> ?p \<noteq> 40 \<and> ?p \<noteq> 60 \<longrightarrow> (\<forall>c \<in> set BRACKET_CONFIGS. in_bracket ?p c \<longrightarrow> c = b)"
    by blast
  have g: "getBracket n (Some m) = b"
    using b(1) by (simp add: getBracket_def Let_def)
  show ?thesis unfolding g using b by simp
qed

theorem getBracket_lowest_containing_witness:
  "(0::real) \<le> 30 \<and> (0::real) < 200000 \<and>
   estimateContextPercent 30 (Some 200000) = 47.5 \<and>
   bracket (getBracket 30 (Some 200000)) = MODERATE \<and>
   getBracket 30 (Some 200000) \<in> set BRACKET_CONFIGS \<and>
   in_bracket (estimateContextPercent 30 (Some 200000)) (getBracket 30 (Some 200000)) \<and>
   list_all (\<lambda>c. in_bracket (estimateContextPercent 30 (Some 200000)) c = (c = getBracket 30 (Some 200000)))
     BRACKET_CONFIGS"
proof -
  have h1: "(0::real) \<le> 30" and h2: "(0::real) < 200000" by simp_all
  have p: "estimateContextPercent 30 (Some 200000) = 47.5"
    by (simp add: estimateContextPercent_def TOKENS_PER_ROUND_def)
  have b: "bracket (getBracket 30 (Some 200000)) = MODERATE"
    by (simp add: getBracket_def estimateContextPercent_def TOKENS_PER_ROUND_def
        BRACKET_CONFIGS_def in_bracket_def)
  have np: "estimateContextPercent 30 (Some 200000) \<notin> {25, 40, 60}"
    unfolding p by simp
  note t = getBracket_lowest_containing[OF h1 h2]
  from t have m: "getBracket 30 (Some 200000) \<in> set BRACKET_CONFIGS"
    by blast
  from t have a: "in_bracket (estimateContextPercent 30 (Some 200000)) (getBracket 30 (Some 200000))"
    by blast
  from t np have c: "\<forall>c \<in> set BRACKET_CONFIGS.
      in_bracket (estimateContextPercent 30 (Some 200000)) c \<longrightarrow> c = getBracket 30 (Some 200000)"
    by blast
  from a c have l: "list_all (\<lambda>c. in_bracket (estimateContextPercent 30 (Some 200000)) c =
      (c = getBracket 30 (Some 200000))) BRACKET_CONFIGS"
    unfolding list_all_iff by blast
  from h1 h2 p b m a l show ?thesis by blast
qed


section \<open>Verification: token budget enforcement\<close>

lemma total_cost_filter_neq:
  "total_cost heap (filter (\<lambda>s. s \<noteq> t) xs) =
     total_cost heap xs - int (count_list xs t) * int (sec_tokens (heap t))"
  by (induction xs) (auto simp: total_cost_def algebra_simps)

lemma total_cost_filter_removed:
  "total_cost heap (filter (\<lambda>x. x \<notin> set (filter (\<lambda>s. s \<noteq> t) rem)) ts) =
     total_cost heap (filter (\<lambda>x. x \<notin> set rem) ts) +
       (if t \<in> set rem then int (count_list ts t) * int (sec_tokens (heap t)) else 0)"
  by (induction ts) (auto simp: total_cost_def algebra_simps)

lemma budget_loop_protected:
  "\<forall>t \<in> set pending. sec_priority (heap t) > 0 \<Longrightarrow>
   filter (\<lambda>s. sec_priority (heap s) = 0) (budget_loop heap budget pending remaining cur) =
   filter (\<lambda>s. sec_priority (heap s) = 0) remaining"
proof (induction pending arbitrary: remaining cur)
  case Nil
  then show ?case by simp
next
  case (Cons t ts)
  have "filter (\<lambda>s. sec_priority (heap s) = 0) (filter (\<lambda>s. s \<noteq> t) remaining) =
        filter (\<lambda>s. sec_priority (heap s) = 0) remaining"
    using Cons.prems by (auto intro!: filter_cong)
  with Cons show ?case by simp
qed

lemma budget_loop_subseq: "subseq (budget_loop heap budget pending remaining cur) remaining"
proof (induction pending arbitrary: remaining cur)
  case Nil
  then show ?case by simp
next
  case (Cons t ts)
  have "subseq (budget_loop heap budget ts (filter (\<lambda>s. s \<noteq> t) remaining)
           (cur - int (sec_tokens (heap t)))) (filter (\<lambda>s. s \<noteq> t) remaining)"
    by (rule Cons.IH)
  also have "subseq (filter (\<lambda>s. s \<noteq> t) remaining) remaining" by simp
  finally show ?case by simp
qed

lemma budget_loop_fits:
  assumes "total_cost heap remaining + total_cost heap (filter (\<lambda>x. x \<notin> set remaining) pending) \<le> cur"
    and "\<forall>r \<in> set remaining. count_list pending r \<le> count_list remaining r"
    and "\<forall>r \<in> set remaining. sec_priority (heap r) > 0 \<longrightarrow> r \<in> set pending"
  shows "total_cost heap (budget_loop heap budget pending remaining cur) \<le> budget \<or>
         (\<forall>s \<in> set (budget_loop heap budget pending remaining cur). sec_priority (heap s) = 0)"
  using assms
proof (induction pending arbitrary: remaining cur)
  case Nil
  then show ?case by auto
next
  case (Cons t ts)
  show ?case
  proof (cases "cur \<le> budget")
    case True
    have "0 \<le> total_cost heap (filter (\<lambda>x. x \<notin> set remaining) (t # ts))"
      unfolding total_cost_def by (rule sum_list_nonneg) auto
    with Cons.prems(1) True have "total_cost heap remaining \<le> budget" by linarith
    with True show ?thesis by simp
  next
    case False
    let ?rem' = "filter (\<lambda>s. s \<noteq> t) remaining"
    let ?cur' = "cur - int (sec_tokens (heap t))"
    have A: "total_cost heap ?rem' + total_cost heap (filter (\<lambda>x. x \<notin> set ?rem') ts) \<le> ?cur'"
    proof (cases "t \<in> set remaining")
      case True
      then have "count_list (t # ts) t \<le> count_list remaining t" using Cons.prems(2) by blast
      then have c: "int (count_list ts t) + 1 \<le> int (count_list remaining t)" by simp
      have m: "(int (count_list ts t) + 1) * int (sec_tokens (heap t)) \<le>
               int (count_list remaining t) * int (sec_tokens (heap t))"
        using c by (rule mult_right_mono) simp
      have p: "total_cost heap remaining + total_cost heap (filter (\<lambda>x. x \<notin> set remaining) ts) \<le> cur"
        using Cons.prems(1) True by simp
      have e1: "total_cost heap ?rem' =
                total_cost heap remaining - int (count_list remaining t) * int (sec_tokens (heap t))"
        by (rule total_cost_filter_neq)
      have e2: "total_cost heap (filter (\<lambda>x. x \<notin> set ?rem') ts) =
                total_cost heap (filter (\<lambda>x. x \<notin> set remaining) ts) +
                int (count_list ts t) * int (sec_tokens (heap t))"
        using True by (simp only: total_cost_filter_removed if_True)
      show ?thesis unfolding e1 e2 using m p by (simp add: algebra_simps)
    next
      case False
      then have r: "?rem' = remaining" by (auto simp: filter_id_conv)
      have "filter (\<lambda>x. x \<notin> set remaining) (t # ts) = t # filter (\<lambda>x. x \<notin> set remaining) ts"
        using False by simp
      then have "total_cost heap remaining + (int (sec_tokens (heap t)) +
                 total_cost heap (filter (\<lambda>x. x \<notin> set remaining) ts)) \<le> cur"
        using Cons.prems(1) by (simp add: total_cost_def)
      then show ?thesis unfolding r by simp
    qed
    have B: "\<forall>r \<in> set ?rem'. count_list ts r \<le> count_list ?rem' r"
    proof
      fix r assume "r \<in> set ?rem'"
      then have r: "r \<in> set remaining" "r \<noteq> t" by auto
      then have "count_list (t # ts) r \<le> count_list remaining r" using Cons.prems(2) by blast
      moreover have "count_list ?rem' r = count_list remaining r"
        using r(2) by (induction remaining) auto
      ultimately show "count_list ts r \<le> count_list ?rem' r" using r(2) by simp
    qed
    have C: "\<forall>r \<in> set ?rem'. sec_priority (heap r) > 0 \<longrightarrow> r \<in> set ts"
      using Cons.prems(3) by auto
    from Cons.IH[OF A B C] False show ?thesis by simp
  qed
qed

lemma count_list_sort_key: "count_list (sort_key f xs) x = count_list xs x"
proof -
  have "mset (sort_key f xs) = mset xs" by simp
  then have "count (mset (sort_key f xs)) x = count (mset xs) x" by simp
  then show ?thesis by (simp only: count_mset)
qed

lemma count_list_filter_le: "count_list (filter P xs) x \<le> count_list xs x"
  by (induction xs) auto


text \<open>
  C6: for every list of sections and every budget, the sections of priority 0 of the
  result are those of the input, all of them and in the same order, and the total cost of
  the result is at most the budget unless every section of the result has priority 0.
\<close>

theorem enforceTokenBudget_protected_and_fits:
  "filter (\<lambda>s. sec_priority (heap s) = 0) (enforceTokenBudget heap sections budget) =
     filter (\<lambda>s. sec_priority (heap s) = 0) sections \<and>
   (total_cost heap (enforceTokenBudget heap sections budget) \<le> budget \<or>
    (\<forall>s \<in> set (enforceTokenBudget heap sections budget). sec_priority (heap s) = 0))"
proof (cases "total_cost heap sections \<le> budget")
  case True
  then show ?thesis by (simp add: enforceTokenBudget_def total_cost_def)
next
  case False
  let ?removable = "sort_key (\<lambda>s. - int (sec_priority (heap s)))
                (filter (\<lambda>s. sec_priority (heap s) > 0) sections)"
  have res: "enforceTokenBudget heap sections budget =
     budget_loop heap budget ?removable sections (total_cost heap sections)"
    using False by (simp add: enforceTokenBudget_def total_cost_def)
  have "filter (\<lambda>x. x \<notin> set sections) ?removable = []"
    by (auto simp: filter_empty_conv)
  then have A: "total_cost heap sections + total_cost heap (filter (\<lambda>x. x \<notin> set sections) ?removable)
      \<le> total_cost heap sections"
    by (simp add: total_cost_def)
  have B: "\<forall>r \<in> set sections. count_list ?removable r \<le> count_list sections r"
    by (simp add: count_list_sort_key count_list_filter_le)
  have C: "\<forall>r \<in> set sections. sec_priority (heap r) > 0 \<longrightarrow> r \<in> set ?removable"
    by simp
  have P: "\<forall>t \<in> set ?removable. sec_priority (heap t) > 0" by simp
  show ?thesis
    unfolding res using budget_loop_fits[OF A B C] budget_loop_protected[OF P] by blast
qed

theorem enforceTokenBudget_protected_and_fits_witness:
  "enforceTokenBudget test_sections [0, 1, 2] 200 = [0] \<and>
   total_cost test_sections (enforceTokenBudget test_sections [0, 1, 2] 200) \<le> 200 \<and>
   enforceTokenBudget test_sections [3, 4] 100 = [3, 4] \<and>
   \<not> total_cost test_sections (enforceTokenBudget test_sections [3, 4] 100) \<le> 100 \<and>
   list_all (\<lambda>s. sec_priority (test_sections s) = 0) (enforceTokenBudget test_sections [3, 4] 100)"
proof -
  have a: "enforceTokenBudget test_sections [0, 1, 2] 200 = [0]"
    by (simp add: enforceTokenBudget_def test_sections_def)
  have b: "enforceTokenBudget test_sections [3, 4] 100 = [3, 4]"
    by (simp add: enforceTokenBudget_def test_sections_def)
  have c: "\<not> total_cost test_sections (enforceTokenBudget test_sections [3, 4] 100) \<le> 100"
    unfolding b by (simp add: total_cost_def test_sections_def)
  have d: "total_cost test_sections (enforceTokenBudget test_sections [0, 1, 2] 200) \<le> 200"
    unfolding a by (simp add: total_cost_def test_sections_def)
  note t = enforceTokenBudget_protected_and_fits[of test_sections "[3, 4]" 100, THEN conjunct2]
  have "\<forall>s \<in> set (enforceTokenBudget test_sections [3, 4] 100). sec_priority (test_sections s) = 0"
  proof (rule disjE[OF t])
    assume "total_cost test_sections (enforceTokenBudget test_sections [3, 4] 100) \<le> 100"
    with c show ?thesis by (rule notE)
  qed
  then have e: "list_all (\<lambda>s. sec_priority (test_sections s) = 0)
      (enforceTokenBudget test_sections [3, 4] 100)"
    unfolding list_all_iff .
  from a b c d e show ?thesis by (intro conjI)
qed

text \<open>
  C10: when the total cost of the input is at most the budget the input is returned as it
  is, and for every input the result is a subsequence of the input: the sections that are
  returned stand in the order they had.
\<close>

theorem enforceTokenBudget_within_budget_and_order:
  "(total_cost heap sections \<le> budget \<longrightarrow> enforceTokenBudget heap sections budget = sections) \<and>
   subseq (enforceTokenBudget heap sections budget) sections"
  by (simp add: enforceTokenBudget_def total_cost_def Let_def budget_loop_subseq)

theorem enforceTokenBudget_within_budget_and_order_witness:
  "total_cost test_sections [0, 5] \<le> 500 \<and>
   enforceTokenBudget test_sections [0, 5] 500 = [0, 5] \<and>
   subseq (enforceTokenBudget test_sections [0, 1, 2] 200) [0, 1, 2]"
proof -
  have h: "total_cost test_sections [0, 5] \<le> 500"
    by (simp add: total_cost_def test_sections_def)
  have a: "enforceTokenBudget test_sections [0, 5] 500 = [0, 5]"
    by (rule enforceTokenBudget_within_budget_and_order
          [of test_sections "[0, 5]" 500, THEN conjunct1, THEN mp, OF h])
  have b: "subseq (enforceTokenBudget test_sections [0, 1, 2] 200) [0, 1, 2]"
    by (rule enforceTokenBudget_within_budget_and_order
          [of test_sections "[0, 1, 2]" 200, THEN conjunct2])
  from h a b show ?thesis by (intro conjI)
qed


section \<open>Verification: the bounded event log\<close>

text \<open>
  With the default cap, and with every cap of at least 2, the trimmed log is within the cap
  and keeps its first and its last event.
\<close>

lemma save_events_within_cap:
  assumes "save_limit maxEvents \<ge> 2"
  shows "length (save_events evs maxEvents) \<le> save_limit maxEvents \<and>
         (length evs \<le> save_limit maxEvents \<longrightarrow> save_events evs maxEvents = evs) \<and>
         (evs \<noteq> [] \<longrightarrow> hd (save_events evs maxEvents) = hd evs \<and>
            last (save_events evs maxEvents) = last evs)"
proof (cases "length evs > save_limit maxEvents")
  case False
  then show ?thesis by (simp add: save_events_def)
next
  case True
  then obtain e es where evs: "evs = e # es" by (cases evs) auto
  let ?k = "save_limit maxEvents - 1"
  have k: "?k > 0" "?k < length evs" using assms True by auto
  have r: "save_events evs maxEvents = e # drop (length evs - ?k) evs"
    using True k by (simp add: save_events_def slice_neg_def evs)
  have l: "length (drop (length evs - ?k) evs) = ?k" using k by simp
  have ne: "drop (length evs - ?k) evs \<noteq> []" using l k by (metis length_0_conv less_numeral_extra(3))
  have la: "last (drop (length evs - ?k) evs) = last evs"
    using k by (intro last_drop) simp
  show ?thesis using True k l ne la assms unfolding r by (simp add: evs)
qed

text \<open>
  C5 (the code exceeds the cap): with \<open>maxEvents = 1\<close> and a log of two events, \<open>slice(-(limit - 1))\<close> is
  \<open>slice(-0)\<close>, the whole array, and the saved log has three events, the first one twice.
\<close>

theorem save_cap_one_grows:
  "events (save test_session (Some 1)) = [start_event, start_event, build_start_event] \<and>
   length (events (save test_session (Some 1))) = 3"
  by (simp add: save_def save_events_def save_limit_def slice_neg_def test_session_def)


section \<open>Verification: crash detection\<close>

lemma whole_minutes_at_least: "m \<le> a div 60000 \<longleftrightarrow> m * 60000 \<le> a" for a m :: int
proof
  assume "m \<le> a div 60000"
  then have "m * 60000 \<le> a div 60000 * 60000" by simp
  moreover have "a = a div 60000 * 60000 + a mod 60000" by simp
  moreover have "0 \<le> a mod 60000" by simp
  ultimately show "m * 60000 \<le> a" by linarith
next
  assume "m * 60000 \<le> a"
  then have "m * 60000 div 60000 \<le> a div 60000" by (rule zdiv_mono1) simp
  then show "m \<le> a div 60000" by simp
qed

text \<open>
  C9, as stated, fails: a running session whose last activity is exactly 30 minutes old is
  not older than the threshold of 30 minutes, and it is flagged.
\<close>

theorem detectCrashedSession_at_threshold:
  "\<not> ((detectCrashedSession 1800000 test_session None \<noteq> None) \<longleftrightarrow>
       (status test_session \<notin> {Completed, Paused, Failed, Idle} \<and>
        1800000 - last_activity_or_start test_session > DEFAULT_CRASH_MINUTES * 60000))"
  by (simp add: detectCrashedSession_def test_session_def last_activity_or_start_def
      DEFAULT_CRASH_MINUTES_def)

text \<open>
  C9, amended: a session is flagged if and only if its status is none of completed,
  paused, failed and idle, and its last activity (or its start, when it has no last
  activity) is at least the threshold old, in minutes, 30 by default. The function
  returns the report only; it has no session to return.
\<close>

theorem detectCrashedSession_iff:
  "detectCrashedSession now session crashMinutes \<noteq> None \<longleftrightarrow>
     status session \<notin> {Completed, Paused, Failed, Idle} \<and>
     now - last_activity_or_start session \<ge>
       (case crashMinutes of None \<Rightarrow> DEFAULT_CRASH_MINUTES | Some m \<Rightarrow> m) * 60000"
proof -
  let ?m = "case crashMinutes of None \<Rightarrow> DEFAULT_CRASH_MINUTES | Some m \<Rightarrow> m"
  have d: "\<not> (a div 60000 < m) \<longleftrightarrow> m * 60000 \<le> a" for a m :: int
    using whole_minutes_at_least[of m a] by (simp add: not_less)
  show ?thesis
  proof (cases "status session \<in> {Completed, Paused, Failed, Idle}")
    case True
    then show ?thesis by (simp add: detectCrashedSession_def)
  next
    case False
    then have "detectCrashedSession now session crashMinutes \<noteq> None \<longleftrightarrow>
       \<not> ((now - last_activity_or_start session) div 60000 < ?m)"
      by (simp add: detectCrashedSession_def Let_def)
    with False show ?thesis by (simp only: d simp_thms)
  qed
qed

theorem detectCrashedSession_iff_witness:
  "detectCrashedSession 3600000 test_session (Some 30) \<noteq> None \<and>
   detectCrashedSession 600000 test_session (Some 30) = None \<and>
   detectCrashedSession 3600000 (test_session\<lparr>status := Paused\<rparr>) (Some 30) = None \<and>
   detectCrashedSession 3600000 (test_session\<lparr>lastActivity := None\<rparr>) None \<noteq> None"
proof -
  have a: "detectCrashedSession 3600000 test_session (Some 30) \<noteq> None"
    using detectCrashedSession_iff[of 3600000 test_session "Some 30"]
    by (simp add: test_session_def last_activity_or_start_def)
  have b: "detectCrashedSession 600000 test_session (Some 30) = None"
    using detectCrashedSession_iff[of 600000 test_session "Some 30"]
    by (simp add: test_session_def last_activity_or_start_def)
  have c: "detectCrashedSession 3600000 (test_session\<lparr>status := Paused\<rparr>) (Some 30) = None"
    using detectCrashedSession_iff[of 3600000 "test_session\<lparr>status := Paused\<rparr>" "Some 30"]
    by (simp add: test_session_def last_activity_or_start_def)
  have d: "detectCrashedSession 3600000 (test_session\<lparr>lastActivity := None\<rparr>) None \<noteq> None"
    using detectCrashedSession_iff[of 3600000 "test_session\<lparr>lastActivity := None\<rparr>" None]
    by (simp add: test_session_def last_activity_or_start_def DEFAULT_CRASH_MINUTES_def)
  from a b c d show ?thesis by (intro conjI)
qed


section \<open>Verification: wave planning\<close>

lemma topological_snoc:
  assumes "topological waves"
    and "\<forall>p \<in> set wave. \<forall>d \<in> set (deps_of p). \<exists>j < length waves. d \<in> ph_id ` set (waves ! j)"
  shows "topological (waves @ [wave])"
  unfolding topological_def
proof (intro allI impI ballI)
  fix k p d
  assume k: "k < length (waves @ [wave])" and p: "p \<in> set ((waves @ [wave]) ! k)"
    and d: "d \<in> set (deps_of p)"
  show "\<exists>j<k. d \<in> ph_id ` set ((waves @ [wave]) ! j)"
  proof (cases "k < length waves")
    case True
    with p have "p \<in> set (waves ! k)" by (simp add: nth_append)
    with assms(1) True d obtain j where "j < k" "d \<in> ph_id ` set (waves ! j)"
      unfolding topological_def by blast
    with True show ?thesis by (auto simp: nth_append intro!: exI[of _ j])
  next
    case False
    with k have kk: "k = length waves" by simp
    with p have "p \<in> set wave" by simp
    with assms(2) d obtain j where "j < length waves" "d \<in> ph_id ` set (waves ! j)" by blast
    with kk show ?thesis by (auto simp: nth_append intro!: exI[of _ j])
  qed
qed

lemma waves_loop_topological:
  assumes "waves_loop completed remaining waves = (ws, False)"
    and "topological waves"
    and "completed = ph_id ` (\<Union>w \<in> set waves. set w)"
  shows "topological ws"
  using assms
proof (induction completed remaining waves rule: waves_loop.induct)
  case (1 completed remaining waves)
  let ?wave = "filter (\<lambda>p. list_all (\<lambda>d. d \<in> completed) (deps_of p)) remaining"
  show ?case
  proof (cases "remaining = []")
    case True
    with "1.prems" show ?thesis by simp
  next
    case False
    note ne = this
    show ?thesis
    proof (cases "?wave = []")
      case True
      with ne "1.prems"(1) show ?thesis by (simp add: Let_def)
    next
      case False
      have rec: "waves_loop (completed \<union> set (map ph_id ?wave))
               (fold splice_indexOf ?wave remaining) (waves @ [?wave]) = (ws, False)"
        using "1.prems"(1) ne False by (simp add: Let_def)
      have "\<forall>p \<in> set ?wave. \<forall>d \<in> set (deps_of p). \<exists>j < length waves. d \<in> ph_id ` set (waves ! j)"
      proof (intro ballI)
        fix p d assume "p \<in> set ?wave" "d \<in> set (deps_of p)"
        then have "d \<in> completed" by (auto simp: list_all_iff)
        then obtain w q where "w \<in> set waves" "q \<in> set w" "d = ph_id q"
          using "1.prems"(3) by auto
        then obtain j where "j < length waves" "waves ! j = w"
          by (auto simp: in_set_conv_nth)
        then show "\<exists>j < length waves. d \<in> ph_id ` set (waves ! j)"
          using \<open>q \<in> set w\<close> \<open>d = ph_id q\<close> by auto
      qed
      then have t: "topological (waves @ [?wave])"
        using "1.prems"(2) by (intro topological_snoc)
      have c: "completed \<union> set (map ph_id ?wave) = ph_id ` (\<Union>w \<in> set (waves @ [?wave]). set w)"
        using "1.prems"(3) by auto
      show ?thesis
        using "1.IH"[OF ne refl False rec t c] .
    qed
  qed
qed


text \<open>
  C4, as stated, fails: of two phases that depend on each other none is eligible, both are
  appended as waves of their own, and the phase of the first wave depends on the phase of
  the second.
\<close>

theorem calculateWaves_cycle_not_topological:
  "calculateWaves [test_phase ''A'' (Some [''B'']), test_phase ''B'' (Some [''A''])] =
     ([[test_phase ''A'' (Some [''B''])], [test_phase ''B'' (Some [''A''])]], True) \<and>
   \<not> topological
       (fst (calculateWaves [test_phase ''A'' (Some [''B'']), test_phase ''B'' (Some [''A''])]))"
proof -
  have c: "calculateWaves [test_phase ''A'' (Some [''B'']), test_phase ''B'' (Some [''A''])] =
     ([[test_phase ''A'' (Some [''B''])], [test_phase ''B'' (Some [''A''])]], True)"
    by (simp add: calculateWaves_def test_phase_def deps_of_def splice_indexOf_def)
  have n: "\<not> topological [[test_phase ''A'' (Some [''B''])], [test_phase ''B'' (Some [''A''])]]"
    unfolding topological_def
    by (auto simp: test_phase_def deps_of_def intro!: exI[of _ 0])
  show ?thesis unfolding c using n by simp
qed

text \<open>
  C4, amended: for every list of phases for which \<open>calculateWaves\<close> does not fall back to
  sequential waves (it finds an eligible phase in every pass and prints no warning), the
  waves are a valid topological order: every dependency of a phase of wave \<open>k\<close> is the id of
  a phase of a wave before \<open>k\<close>.
\<close>

theorem calculateWaves_topological:
  assumes "calculateWaves phases = (waves, False)"
  shows "topological waves"
proof -
  have "topological []" by (simp add: topological_def)
  moreover have "{} = ph_id ` (\<Union>w \<in> set ([] :: WorkflowPhase list list). set w)" by simp
  ultimately show ?thesis
    using assms waves_loop_topological unfolding calculateWaves_def by blast
qed

theorem calculateWaves_topological_witness:
  "calculateWaves [test_phase ''A'' None, test_phase ''B'' (Some []),
                   test_phase ''C'' (Some [''A'', ''B''])] =
     ([[test_phase ''A'' None, test_phase ''B'' (Some [])],
       [test_phase ''C'' (Some [''A'', ''B''])]], False) \<and>
   topological [[test_phase ''A'' None, test_phase ''B'' (Some [])],
                [test_phase ''C'' (Some [''A'', ''B''])]]"
proof -
  have c: "calculateWaves [test_phase ''A'' None, test_phase ''B'' (Some []),
                   test_phase ''C'' (Some [''A'', ''B''])] =
     ([[test_phase ''A'' None, test_phase ''B'' (Some [])],
       [test_phase ''C'' (Some [''A'', ''B''])]], False)"
    by (simp add: calculateWaves_def test_phase_def deps_of_def splice_indexOf_def)
  from c calculateWaves_topological[OF c] show ?thesis by (intro conjI)
qed


section \<open>Verification: retries\<close>

lemma executePrompt_run:
  assumes "\<not> env_manual env" and "executePrompt env phase w = (result, w2)"
  shows "w_runs w2 = w_runs w + 1 \<and>
         res_exitCode result = exit_of (env_executor env (w_runs w)) \<and>
         (\<exists>sfx. w_trace w2 = w_trace w @ RunExecutor (w_runs w) # sfx \<and> filter is_timing sfx = [])"
  using assms
  by (auto simp: executePrompt_def exit_of_def emit_def Let_def split: sum.splits option.splits if_splits)

lemma retry_loop_manual:
  assumes "env_manual env"
  shows "retry_loop env phase r 0 w = (result, w') \<Longrightarrow> w' = w"
  using assms by (subst (asm) retry_loop.simps) (auto simp: executePrompt_def)

lemma retry_loop_runs:
  assumes "\<not> env_manual env" and "retry_loop env phase r a w = (result, w')"
  shows "w_runs w < w_runs w' \<and>
         int (w_runs w' - w_runs w) \<le> max 1 (r + 1 - int a) \<and>
         (\<forall>k. w_runs w \<le> k \<and> k + 1 < w_runs w' \<longrightarrow> exit_of (env_executor env k) \<noteq> 0) \<and>
         (\<exists>sfx. w_trace w' = w_trace w @ sfx \<and>
            filter is_timing sfx = spec_retry_trace a (w_runs w) (w_runs w' - w_runs w))"
  using assms
proof (induction env phase r a w arbitrary: result w' rule: retry_loop.induct)
  case (1 env phase r a w)
  let ?b = "if a > 0 then [Backoff (min (1000 * 2 ^ (a - 1)) 30000)] else []"
  let ?w1 = "if a > 0 then emit (Backoff (min (1000 * 2 ^ (a - 1)) 30000)) w else w"
  obtain res1 w2 where ep: "executePrompt env phase ?w1 = (res1, w2)" by force
  have r1: "w_runs ?w1 = w_runs w" and t1: "w_trace ?w1 = w_trace w @ ?b"
    by (auto simp: emit_def)
  from executePrompt_run[OF "1.prems"(1) ep] r1 t1
  obtain sfx where e: "w_runs w2 = w_runs w + 1"
    "res_exitCode res1 = exit_of (env_executor env (w_runs w))"
    "w_trace w2 = w_trace w @ ?b @ RunExecutor (w_runs w) # sfx" "filter is_timing sfx = []"
    by auto
  have unf: "retry_loop env phase r a w =
      (if res_exitCode res1 \<noteq> 0 \<and> int (a + 1) \<le> r
       then retry_loop env phase r (a + 1) w2 else (res1, w2))"
    by (subst retry_loop.simps) (simp add: Let_def ep)
  show ?case
  proof (cases "res_exitCode res1 \<noteq> 0 \<and> int (a + 1) \<le> r")
    case False
    then have "retry_loop env phase r a w = (res1, w2)"
      by (simp only: unf if_False if_True simp_thms)
    with "1.prems"(2) have w': "w' = w2" by simp
    have n: "w_runs w2 - w_runs w = Suc 0" using e(1) by simp
    have "filter is_timing (?b @ RunExecutor (w_runs w) # sfx) = spec_retry_trace a (w_runs w) (Suc 0)"
      using e(4) by auto
    then show ?thesis unfolding w' n using e(1,3) by auto
  next
    case True
    then have "retry_loop env phase r a w = retry_loop env phase r (a + 1) w2"
      by (simp only: unf if_False if_True simp_thms)
    with "1.prems"(2) have rec: "retry_loop env phase r (a + 1) w2 = (result, w')" by simp
    from "1.IH"[OF refl ep[symmetric] True "1.prems"(1) rec]
    obtain sfx' where ih: "w_runs w2 < w_runs w'"
      "int (w_runs w' - w_runs w2) \<le> max 1 (r + 1 - int (a + 1))"
      "\<forall>k. w_runs w2 \<le> k \<and> k + 1 < w_runs w' \<longrightarrow> exit_of (env_executor env k) \<noteq> 0"
      "w_trace w' = w_trace w2 @ sfx'"
      "filter is_timing sfx' = spec_retry_trace (a + 1) (w_runs w2) (w_runs w' - w_runs w2)"
      by auto
    have n: "w_runs w' - w_runs w = Suc (w_runs w' - w_runs w2)" using ih(1) e(1) by simp
    have a1: "w_runs w < w_runs w'" using ih(1) e(1) by simp
    have a2: "int (w_runs w' - w_runs w) \<le> max 1 (r + 1 - int a)"
      using ih(2) True n by simp
    have a3: "\<forall>k. w_runs w \<le> k \<and> k + 1 < w_runs w' \<longrightarrow> exit_of (env_executor env k) \<noteq> 0"
    proof (intro allI impI)
      fix k assume k: "w_runs w \<le> k \<and> k + 1 < w_runs w'"
      show "exit_of (env_executor env k) \<noteq> 0"
      proof (cases "k = w_runs w")
        case True
        then show ?thesis using e(2) \<open>res_exitCode res1 \<noteq> 0 \<and> int (a + 1) \<le> r\<close> by simp
      next
        case False
        with k e(1) have "w_runs w2 \<le> k \<and> k + 1 < w_runs w'" by simp
        with ih(3) show ?thesis by blast
      qed
    qed
    have a4: "w_trace w' = w_trace w @ (?b @ RunExecutor (w_runs w) # sfx @ sfx')"
      using ih(4) e(3) by simp
    have a5: "filter is_timing (?b @ RunExecutor (w_runs w) # sfx @ sfx') =
              spec_retry_trace a (w_runs w) (w_runs w' - w_runs w)"
      unfolding n using e(1,4) ih(5) by auto
    from a1 a2 a3 a4 a5 show ?thesis by blast
  qed
qed


text \<open>
  C7: for a phase with retry limit \<open>r \<ge> 0\<close>, \<open>executeWithRetry\<close> calls the executor at most
  \<open>r + 1\<close> times; every call but the last one it makes has failed, so the first call that
  returns exit code 0 ends the loop; and the sleeps and calls it adds to the trace are the
  schedule of the specification, in which retry number \<open>n \<ge> 1\<close> comes after a sleep of
  \<open>min(1000 * 2^(n - 1), 30000)\<close> milliseconds.
\<close>

theorem executeWithRetry_attempts:
  assumes "0 \<le> ph_retry phase" and "executeWithRetry env phase w = (result, w')"
  shows "w_runs w \<le> w_runs w' \<and>
         int (w_runs w' - w_runs w) \<le> ph_retry phase + 1 \<and>
         (\<forall>k. w_runs w \<le> k \<and> k + 1 < w_runs w' \<longrightarrow> exit_of (env_executor env k) \<noteq> 0) \<and>
         filter is_timing (drop (length (w_trace w)) (w_trace w')) =
           spec_retry_trace 0 (w_runs w) (w_runs w' - w_runs w)"
proof (cases "env_manual env")
  case True
  from retry_loop_manual[OF True] assms(2) have "w' = w"
    unfolding executeWithRetry_def by blast
  then show ?thesis using assms(1) by simp
next
  case False
  from retry_loop_runs[OF False] assms(2)
  obtain sfx where r: "w_runs w < w_runs w'"
    "int (w_runs w' - w_runs w) \<le> max 1 (ph_retry phase + 1 - int 0)"
    "\<forall>k. w_runs w \<le> k \<and> k + 1 < w_runs w' \<longrightarrow> exit_of (env_executor env k) \<noteq> 0"
    "w_trace w' = w_trace w @ sfx"
    "filter is_timing sfx = spec_retry_trace 0 (w_runs w) (w_runs w' - w_runs w)"
    unfolding executeWithRetry_def by blast
  from r(2) assms(1) have "int (w_runs w' - w_runs w) \<le> ph_retry phase + 1" by simp
  with r show ?thesis by simp
qed

theorem executeWithRetry_attempts_witness:
  "0 \<le> ph_retry retry_phase \<and>
   fst (executeWithRetry test_env retry_phase test_world) = ok_result \<and>
   w_runs (snd (executeWithRetry test_env retry_phase test_world)) = 3 \<and>
   int (w_runs (snd (executeWithRetry test_env retry_phase test_world)) - w_runs test_world)
     \<le> ph_retry retry_phase + 1 \<and>
   exit_of (env_executor test_env 0) \<noteq> 0 \<and> exit_of (env_executor test_env 1) \<noteq> 0 \<and>
   filter is_timing (w_trace (snd (executeWithRetry test_env retry_phase test_world))) =
     [RunExecutor 0, Backoff 1000, RunExecutor 1, Backoff 2000, RunExecutor 2]"
proof -
  let ?x = "executeWithRetry test_env retry_phase test_world"
  have h1: "0 \<le> ph_retry retry_phase" by (simp add: retry_phase_def)
  have h2: "?x = (fst ?x, snd ?x)" by simp
  note t = executeWithRetry_attempts[OF h1 h2]
  have r: "w_runs (snd ?x) = 3"
    by (simp add: executeWithRetry_def retry_loop.simps executePrompt_def test_env_def
        test_world_def retry_phase_def test_phase_def emit_def failed_result_def ok_result_def
        Let_def)
  have f: "fst ?x = ok_result"
    by (simp add: executeWithRetry_def retry_loop.simps executePrompt_def test_env_def
        test_world_def retry_phase_def test_phase_def emit_def failed_result_def ok_result_def
        Let_def)
  have w0: "w_runs test_world = 0" "w_trace test_world = []" by (simp_all add: test_world_def)
  from t have b: "int (w_runs (snd ?x) - w_runs test_world) \<le> ph_retry retry_phase + 1"
    by (rule conjunct2[THEN conjunct1])
  from t have k: "\<forall>k. w_runs test_world \<le> k \<and> k + 1 < w_runs (snd ?x) \<longrightarrow>
      exit_of (env_executor test_env k) \<noteq> 0"
    by (rule conjunct2[THEN conjunct2, THEN conjunct1])
  from k[rule_format, of 0] have k0: "exit_of (env_executor test_env 0) \<noteq> 0"
    unfolding r w0 by simp
  from k[rule_format, of 1] have k1: "exit_of (env_executor test_env 1) \<noteq> 0"
    unfolding r w0 by simp
  from t have "filter is_timing (drop (length (w_trace test_world)) (w_trace (snd ?x))) =
      spec_retry_trace 0 (w_runs test_world) (w_runs (snd ?x) - w_runs test_world)"
    by (rule conjunct2[THEN conjunct2, THEN conjunct2])
  then have s: "filter is_timing (w_trace (snd ?x)) =
      [RunExecutor 0, Backoff 1000, RunExecutor 1, Backoff 2000, RunExecutor 2]"
    unfolding r w0 by (simp add: numeral_3_eq_3)
  from h1 f r b k0 k1 s show ?thesis by (intro conjI)
qed


section \<open>Verification: user-approval gates\<close>

lemma save_events_default_last:
  "evs \<noteq> [] \<Longrightarrow> last (save_events evs None) = last evs"
  using save_events_within_cap[of None evs] by (simp add: save_limit_def)

lemma preparePhase_trace:
  "w_runs (preparePhase env phase w) = w_runs w \<and>
   (\<exists>s1 taskId. w_trace (preparePhase env phase w) =
      w_trace w @ [Persist s1, HookEmit ''step:start'',
                   CompilePrompt (ph_agent phase) taskId (promptCount (w_session w) + 1)])"
  by (simp add: preparePhase_def Let_def store_save_def emit_def push_event_def)

lemma pauseAtGate_effects:
  "w_runs (pauseAtGate env phase workflow w) = w_runs w \<and>
   status (w_session (pauseAtGate env phase workflow w)) = Paused \<and>
   last (events (w_session (pauseAtGate env phase workflow w))) = gate_event env phase \<and>
   w_trace (pauseAtGate env phase workflow w) =
     w_trace w @ [Persist (w_session (pauseAtGate env phase workflow w)),
                  UpdateDashboard (w_session (pauseAtGate env phase workflow w)),
                  WriteHandoff (w_session (pauseAtGate env phase workflow w))
                    ''paused (gate: user_approval)'',
                  HookEmit ''session:pause'',
                  RecordDecision (''Gate: '' @ ph_name phase)]"
  by (simp add: pauseAtGate_def Let_def store_save_def emit_def push_event_def updateDashboard_def
      save_def save_events_default_last gate_event_def)

text \<open>
  C8: a phase with a user-approval gate, executed as the phase of a wave
  (\<open>executeSinglePhase\<close>) or at its index of a linear run (\<open>executePhase\<close>), ends in one and the
  same world: the executor has not been called, the status is paused, the last event of
  the log is the gate event, and what has been added to the trace is the preparation of
  the phase (the session saved, the hook, the prompt compiled) followed by the session
  saved, the dashboard updated, the handoff document written for the paused session, the
  pause hook and the decision record. No effect of the list is a call of the executor.
\<close>

theorem gate_pauses_without_executor:
  assumes "ph_gate phase = Some user_approval"
  shows "\<exists>w' s1 taskId.
     executeSinglePhase env phase workflow w = (True, w') \<and>
     (\<forall>i. i < length (wf_phases workflow) \<and> wf_phases workflow ! i = phase \<longrightarrow>
          executePhase env workflow i w = Some w') \<and>
     w_runs w' = w_runs w \<and>
     status (w_session w') = Paused \<and>
     last (events (w_session w')) = gate_event env phase \<and>
     w_trace w' =
       w_trace w @
         [Persist s1, HookEmit ''step:start'',
          CompilePrompt (ph_agent phase) taskId (promptCount (w_session w) + 1),
          Persist (w_session w'), UpdateDashboard (w_session w'),
          WriteHandoff (w_session w') ''paused (gate: user_approval)'',
          HookEmit ''session:pause'', RecordDecision (''Gate: '' @ ph_name phase)]"
proof -
  let ?w1 = "preparePhase env phase w"
  let ?w' = "pauseAtGate env phase workflow ?w1"
  from preparePhase_trace[of env phase w] obtain s1 taskId where
    p: "w_runs ?w1 = w_runs w"
       "w_trace ?w1 = w_trace w @ [Persist s1, HookEmit ''step:start'',
                   CompilePrompt (ph_agent phase) taskId (promptCount (w_session w) + 1)]"
    by blast
  have a: "executeSinglePhase env phase workflow w = (True, ?w')"
    using assms by (simp add: executeSinglePhase_def Let_def)
  have b: "\<forall>i. i < length (wf_phases workflow) \<and> wf_phases workflow ! i = phase \<longrightarrow>
          executePhase env workflow i w = Some ?w'"
    using assms by (auto simp: executePhase.simps[of env workflow _ w] Let_def)
  note g = pauseAtGate_effects[of env phase workflow ?w1]
  have c: "w_runs ?w' = w_runs w" using g p(1) by simp
  have d: "status (w_session ?w') = Paused" using g by blast
  have e: "last (events (w_session ?w')) = gate_event env phase" using g by blast
  have f: "w_trace ?w' = w_trace w @
         [Persist s1, HookEmit ''step:start'',
          CompilePrompt (ph_agent phase) taskId (promptCount (w_session w) + 1),
          Persist (w_session ?w'), UpdateDashboard (w_session ?w'),
          WriteHandoff (w_session ?w') ''paused (gate: user_approval)'',
          HookEmit ''session:pause'', RecordDecision (''Gate: '' @ ph_name phase)]"
    using g p(2) by simp
  from a b c d e f show ?thesis by blast
qed

theorem gate_pauses_without_executor_witness:
  "ph_gate gated_phase = Some user_approval \<and>
   fst (executeSinglePhase test_env gated_phase gated_workflow test_world) = True \<and>
   executePhase test_env gated_workflow 0 test_world =
     Some (snd (executeSinglePhase test_env gated_phase gated_workflow test_world)) \<and>
   w_runs (snd (executeSinglePhase test_env gated_phase gated_workflow test_world)) = 0 \<and>
   status (w_session (snd (executeSinglePhase test_env gated_phase gated_workflow test_world))) = Paused \<and>
   filter is_timing (w_trace (snd (executeSinglePhase test_env gated_phase gated_workflow test_world))) = [] \<and>
   length (w_trace (snd (executeSinglePhase test_env gated_phase gated_workflow test_world))) = 8"
proof -
  let ?x = "executeSinglePhase test_env gated_phase gated_workflow test_world"
  have h: "ph_gate gated_phase = Some user_approval" by (simp add: gated_phase_def)
  from gate_pauses_without_executor[OF h, of test_env gated_workflow test_world]
  obtain w' s1 taskId where t:
    "?x = (True, w')"
    "\<forall>i. i < length (wf_phases gated_workflow) \<and> wf_phases gated_workflow ! i = gated_phase \<longrightarrow>
          executePhase test_env gated_workflow i test_world = Some w'"
    "w_runs w' = w_runs test_world"
    "status (w_session w') = Paused"
    "w_trace w' =
       w_trace test_world @
         [Persist s1, HookEmit ''step:start'',
          CompilePrompt (ph_agent gated_phase) taskId (promptCount (w_session test_world) + 1),
          Persist (w_session w'), UpdateDashboard (w_session w'),
          WriteHandoff (w_session w') ''paused (gate: user_approval)'',
          HookEmit ''session:pause'', RecordDecision (''Gate: '' @ ph_name gated_phase)]"
    by blast
  have w0: "w_runs test_world = 0" "w_trace test_world = []" by (simp_all add: test_world_def)
  have i0: "0 < length (wf_phases gated_workflow) \<and> wf_phases gated_workflow ! 0 = gated_phase"
    by (simp add: gated_workflow_def)
  have a: "fst ?x = True" using t(1) by simp
  have s: "snd ?x = w'" using t(1) by simp
  have b: "executePhase test_env gated_workflow 0 test_world = Some (snd ?x)"
    unfolding s using t(2) i0 by blast
  have c: "w_runs (snd ?x) = 0" unfolding s using t(3) w0 by simp
  have d: "status (w_session (snd ?x)) = Paused" unfolding s using t(4) .
  have e: "filter is_timing (w_trace (snd ?x)) = []" unfolding s t(5) w0 by simp
  have f: "length (w_trace (snd ?x)) = 8" unfolding s t(5) w0 by simp
  from h a b c d e f show ?thesis by (intro conjI)
qed


section \<open>Verification: resume\<close>

lemma save_events_under_cap: "length evs \<le> 200 \<Longrightarrow> save_events evs None = evs"
  by (simp add: save_events_def save_limit_def)

lemma completedPhases_iff:
  "Some pid \<in> set (completedPhases evs) \<longleftrightarrow>
     (\<exists>e \<in> set evs. ev_type e = ''PHASE_COMPLETE'' \<and> ev_phase e = Some pid)"
  by (force simp: completedPhases_def)

lemma completedPhases_snoc_other:
  "ev_type e \<noteq> ''PHASE_COMPLETE'' \<Longrightarrow> completedPhases (evs @ [e]) = completedPhases evs"
  by (simp add: completedPhases_def)

lemma resume_completed_loaded:
  assumes "hasDependsOn workflow \<longrightarrow> length (events (w_session w)) < 200"
  shows "resume_completed env workflow w = completedPhases (events (w_session w))"
proof (cases "fst (resume env workflow w) = Some ExecuteWaves")
  case False
  then show ?thesis
    by (auto simp: resume_completed_def split: prod.splits option.splits resume_call.splits)
next
  case True
  then have h: "hasDependsOn workflow" and nc: "status (w_session w) \<noteq> Completed"
    by (auto simp: resume_def Let_def split: if_splits option.splits)
  with assms have l: "length (events (w_session w)) < 200" by simp
  let ?ev = "\<lparr>ev_timestamp = env_now env, ev_type = ''SESSION_RESUME'',
                ev_agent = currentAgent (w_session w), ev_phase = None,
                ev_data = Some [(''crashed'', JBool (detectCrashedSession (env_now env) (w_session w)
                   (Some (env_crashMinutes env)) \<noteq> None))]\<rparr>"
  have ev: "events (w_session (snd (resume env workflow w))) =
            save_events (events (w_session w) @ [?ev]) None"
    using True nc
    by (auto simp: resume_def Let_def store_save_def save_def emit_def push_event_def
        split: if_splits option.splits)
  have "save_events (events (w_session w) @ [?ev]) None = events (w_session w) @ [?ev]"
    using l by (intro save_events_under_cap) simp
  then have "completedPhases (events (w_session (snd (resume env workflow w)))) =
             completedPhases (events (w_session w))"
    unfolding ev by (simp add: completedPhases_snoc_other)
  with True show ?thesis
    by (auto simp: resume_completed_def split: prod.splits option.splits resume_call.splits)
qed

lemma findIndex_filter:
  "(case findIndex P xs of None \<Rightarrow> [] | Some i \<Rightarrow> take 1 (drop i xs)) = take 1 (filter P xs)"
  by (induction xs) (auto split: option.splits)

lemma resume_linear:
  assumes "status (w_session w) \<noteq> Completed" and "\<not> hasDependsOn workflow"
  shows "resume_first_phases env workflow w =
     take 1 (filter (\<lambda>p. Some (ph_id p) \<notin> set (completedPhases (events (w_session w))))
               (wf_phases workflow))"
  using assms findIndex_filter[where P = "\<lambda>p. Some (ph_id p) \<notin> set (completedPhases (events (w_session w)))"
      and xs = "wf_phases workflow"]
  by (auto simp: resume_first_phases_def resume_def Let_def split: option.splits)

text \<open>
  C3, as stated, fails in wave mode, in two ways. In a workflow whose first listed phase \<open>A\<close>
  depends on the second phase \<open>B\<close>, with no phase completed, the first phase of the list
  that is not completed is \<open>A\<close>, and \<open>resume\<close> hands over to \<open>executeWaves\<close>, which starts with \<open>B\<close>.
  And in a workflow in which \<open>B\<close> depends on \<open>A\<close>, with a log of 200 events whose second event
  completes \<open>A\<close>, the save inside \<open>resume\<close> trims that event away before \<open>executeWaves\<close> computes
  the completed phases: \<open>A\<close> has a PHASE_COMPLETE event in the loaded log, is not taken as
  completed and is started again, while with one phase start less, and the same
  PHASE_COMPLETE events, \<open>A\<close> is taken as completed and \<open>B\<close> is started.
\<close>

theorem resume_wave_mode_diverges:
  "status (w_session test_world) \<noteq> Completed \<and>
   take 1 (filter (\<lambda>p. Some (ph_id p) \<notin> set (resume_completed test_env wave_workflow test_world))
             (wf_phases wave_workflow)) = [test_phase ''A'' (Some [''B''])] \<and>
   resume_first_phases test_env wave_workflow test_world = [test_phase ''B'' None] \<and>
   length (events (w_session (world_with (full_log 198)))) = 200 \<and>
   list_ex (\<lambda>e. ev_type e = ''PHASE_COMPLETE'' \<and> ev_phase e = Some ''A'')
     (events (w_session (world_with (full_log 198)))) \<and>
   Some ''A'' \<notin> set (resume_completed test_env chain_workflow (world_with (full_log 198))) \<and>
   resume_first_phases test_env chain_workflow (world_with (full_log 198)) =
     [test_phase ''A'' None] \<and>
   filter (\<lambda>e. ev_type e = ''PHASE_COMPLETE'') (full_log 197) =
     filter (\<lambda>e. ev_type e = ''PHASE_COMPLETE'') (full_log 198) \<and>
   Some ''A'' \<in> set (resume_completed test_env chain_workflow (world_with (full_log 197))) \<and>
   resume_first_phases test_env chain_workflow (world_with (full_log 197)) =
     [test_phase ''B'' (Some [''A''])]"
proof -
  have a: "status (w_session test_world) \<noteq> Completed"
    by (simp add: test_world_def test_session_def)
  have b: "take 1 (filter (\<lambda>p. Some (ph_id p) \<notin> set (resume_completed test_env wave_workflow test_world))
             (wf_phases wave_workflow)) = [test_phase ''A'' (Some [''B''])]"
    by code_simp
  have c: "resume_first_phases test_env wave_workflow test_world = [test_phase ''B'' None]"
    by code_simp
  have d: "length (events (w_session (world_with (full_log 198)))) = 200"
    by code_simp
  have e: "list_ex (\<lambda>e. ev_type e = ''PHASE_COMPLETE'' \<and> ev_phase e = Some ''A'')
     (events (w_session (world_with (full_log 198))))"
    by code_simp
  have f: "Some ''A'' \<notin> set (resume_completed test_env chain_workflow (world_with (full_log 198)))"
    by code_simp
  have g: "resume_first_phases test_env chain_workflow (world_with (full_log 198)) =
     [test_phase ''A'' None]"
    by code_simp
  have h: "filter (\<lambda>e. ev_type e = ''PHASE_COMPLETE'') (full_log 197) =
     filter (\<lambda>e. ev_type e = ''PHASE_COMPLETE'') (full_log 198)"
    by code_simp
  have i: "Some ''A'' \<in> set (resume_completed test_env chain_workflow (world_with (full_log 197)))"
    by code_simp
  have j: "resume_first_phases test_env chain_workflow (world_with (full_log 197)) =
     [test_phase ''B'' (Some [''A''])]"
    by code_simp
  from a b c d e f g h i j show ?thesis by (intro conjI)
qed

text \<open>
  C3, amended: for every session whose status is not completed and whose log, when a phase
  of the workflow has dependencies (wave mode), holds fewer than 200 events, a phase id is
  among the completed phases the resumed run works with if and only if the loaded log
  holds a PHASE_COMPLETE event for it; another such session whose log has the same
  PHASE_COMPLETE events, whatever its other events, gives the same completed phases; and
  when no phase of the workflow has dependencies (linear mode), \<open>resume\<close> continues from the
  first phase of the phase list that is not among them.
\<close>

theorem resume_completed_from_log:
  assumes "status (w_session w) \<noteq> Completed"
    and "hasDependsOn workflow \<longrightarrow> length (events (w_session w)) < 200"
  shows "(\<forall>pid. Some pid \<in> set (resume_completed env workflow w) \<longleftrightarrow>
            (\<exists>e \<in> set (events (w_session w)). ev_type e = ''PHASE_COMPLETE'' \<and> ev_phase e = Some pid)) \<and>
         (\<forall>w2. status (w_session w2) \<noteq> Completed \<and>
               (hasDependsOn workflow \<longrightarrow> length (events (w_session w2)) < 200) \<and>
               filter (\<lambda>e. ev_type e = ''PHASE_COMPLETE'') (events (w_session w2)) =
               filter (\<lambda>e. ev_type e = ''PHASE_COMPLETE'') (events (w_session w)) \<longrightarrow>
               resume_completed env workflow w2 = resume_completed env workflow w) \<and>
         (\<not> hasDependsOn workflow \<longrightarrow>
            resume_first_phases env workflow w =
              take 1 (filter (\<lambda>p. Some (ph_id p) \<notin> set (resume_completed env workflow w))
                        (wf_phases workflow)))"
proof (intro conjI allI impI)
  fix pid
  show "Some pid \<in> set (resume_completed env workflow w) \<longleftrightarrow>
        (\<exists>e \<in> set (events (w_session w)). ev_type e = ''PHASE_COMPLETE'' \<and> ev_phase e = Some pid)"
    unfolding resume_completed_loaded[OF assms(2)] by (rule completedPhases_iff)
next
  fix w2 :: world
  assume a: "status (w_session w2) \<noteq> Completed \<and>
               (hasDependsOn workflow \<longrightarrow> length (events (w_session w2)) < 200) \<and>
               filter (\<lambda>e. ev_type e = ''PHASE_COMPLETE'') (events (w_session w2)) =
               filter (\<lambda>e. ev_type e = ''PHASE_COMPLETE'') (events (w_session w))"
  then have "resume_completed env workflow w2 = completedPhases (events (w_session w2))"
    by (intro resume_completed_loaded) blast
  also have "\<dots> = completedPhases (events (w_session w))"
    using a by (simp add: completedPhases_def)
  also have "\<dots> = resume_completed env workflow w"
    by (rule resume_completed_loaded[OF assms(2), symmetric])
  finally show "resume_completed env workflow w2 = resume_completed env workflow w" .
next
  assume "\<not> hasDependsOn workflow"
  with assms(1) show "resume_first_phases env workflow w =
              take 1 (filter (\<lambda>p. Some (ph_id p) \<notin> set (resume_completed env workflow w))
                        (wf_phases workflow))"
    unfolding resume_completed_loaded[OF assms(2)] by (rule resume_linear)
qed

theorem resume_completed_from_log_witness:
  "status (w_session (world_with [start_event, build_start_event, build_complete_event]))
     \<noteq> Completed \<and>
   \<not> hasDependsOn linear_workflow \<and>
   Some ''build'' \<in> set (resume_completed test_env linear_workflow
      (world_with [start_event, build_start_event, build_complete_event])) \<and>
   resume_completed test_env linear_workflow (world_with [build_complete_event]) =
     resume_completed test_env linear_workflow
       (world_with [start_event, build_start_event, build_complete_event]) \<and>
   resume_first_phases test_env linear_workflow
     (world_with [start_event, build_start_event, build_complete_event]) =
     [test_phase ''review'' None] \<and>
   hasDependsOn chain_workflow \<and>
   length (events (w_session (world_with (full_log 0)))) < 200 \<and>
   Some ''A'' \<in> set (resume_completed test_env chain_workflow (world_with (full_log 0)))"
proof -
  let ?evs = "[start_event, build_start_event, build_complete_event]"
  let ?w = "world_with ?evs"
  let ?w2 = "world_with [build_complete_event]"
  let ?v = "world_with (full_log 0)"
  have h1: "status (w_session ?w) \<noteq> Completed"
    by (simp add: world_with_def test_session_def)
  have nd: "\<not> hasDependsOn linear_workflow" by code_simp
  then have h2: "hasDependsOn linear_workflow \<longrightarrow> length (events (w_session ?w)) < 200"
    by simp
  note t = resume_completed_from_log[OF h1 h2, of test_env]
  have e: "\<exists>e \<in> set (events (w_session ?w)).
      ev_type e = ''PHASE_COMPLETE'' \<and> ev_phase e = Some ''build''"
    by (simp add: world_with_def build_complete_event_def)
  from t e have a: "Some ''build'' \<in> set (resume_completed test_env linear_workflow ?w)"
    by blast
  have p2: "status (w_session ?w2) \<noteq> Completed \<and>
      (hasDependsOn linear_workflow \<longrightarrow> length (events (w_session ?w2)) < 200) \<and>
      filter (\<lambda>e. ev_type e = ''PHASE_COMPLETE'') (events (w_session ?w2)) =
      filter (\<lambda>e. ev_type e = ''PHASE_COMPLETE'') (events (w_session ?w))"
    using nd
    by (simp add: world_with_def test_session_def start_event_def build_start_event_def
        build_complete_event_def)
  from t p2 have b: "resume_completed test_env linear_workflow ?w2 =
      resume_completed test_env linear_workflow ?w"
    by blast
  from t nd have "resume_first_phases test_env linear_workflow ?w =
      take 1 (filter (\<lambda>p. Some (ph_id p) \<notin> set (resume_completed test_env linear_workflow ?w))
                (wf_phases linear_workflow))"
    by blast
  also have "\<dots> = [test_phase ''review'' None]" by code_simp
  finally have c: "resume_first_phases test_env linear_workflow ?w = [test_phase ''review'' None]" .
  have g1: "status (w_session ?v) \<noteq> Completed"
    by (simp add: world_with_def test_session_def)
  have hd: "hasDependsOn chain_workflow" by code_simp
  have len: "length (events (w_session ?v)) < 200" by code_simp
  then have g2: "hasDependsOn chain_workflow \<longrightarrow> length (events (w_session ?v)) < 200"
    by simp
  note u = resume_completed_from_log[OF g1 g2, of test_env]
  have e2: "\<exists>e \<in> set (events (w_session ?v)).
      ev_type e = ''PHASE_COMPLETE'' \<and> ev_phase e = Some ''A''"
    by (simp add: world_with_def full_log_def a_complete_event_def)
  from u e2 have d: "Some ''A'' \<in> set (resume_completed test_env chain_workflow ?v)"
    by blast
  from h1 nd a b c hd len d show ?thesis by (intro conjI)
qed

end
